theory Spec2Isabelle
  imports Main "HOL-Library.Word"
begin

unbundle bit_operations_syntax

section \<open>Numbers\<close>

text \<open>
  \<open>fixed_t\<close> and \<open>int\<close> are 32-bit two's complement integers: \<open>+\<close>, \<open>-\<close> and \<open>*\<close> wrap
  around, comparisons read the word as signed (\<open><s\<close>, \<open>\<le>s\<close>), and \<open>>>\<close> on a signed value
  is the arithmetic shift.  \<open>angle_t\<close> is an unsigned 32-bit integer.
\<close>

type_synonym fixed_t = "32 word"
type_synonym cint = "32 word"
type_synonym angle_t = "32 word"

definition ABS :: "fixed_t \<Rightarrow> fixed_t" where
  "ABS a = (if a <s 0 then - a else a)"

definition MAX_of :: "fixed_t \<Rightarrow> fixed_t \<Rightarrow> fixed_t" where
  \<comment> \<open>the macro \<open>MAX\<close>\<close>
  "MAX_of a b = (if b <s a then a else b)"

definition MIN_of :: "fixed_t \<Rightarrow> fixed_t \<Rightarrow> fixed_t" where
  \<comment> \<open>the macro \<open>MIN\<close>\<close>
  "MIN_of a b = (if a <s b then a else b)"

definition cdiv :: "fixed_t \<Rightarrow> fixed_t \<Rightarrow> fixed_t" where
  \<comment> \<open>\<open>a / b\<close> on signed operands: the quotient is truncated towards zero\<close>
  "cdiv a b = word_of_int (sgn (sint a) * sgn (sint b) * (\<bar>sint a\<bar> div \<bar>sint b\<bar>))"

definition asr :: "fixed_t \<Rightarrow> nat \<Rightarrow> fixed_t" where
  \<comment> \<open>\<open>a >> n\<close> on a signed operand\<close>
  "asr a n = signed_drop_bit n a"

section \<open>Map objects, lines and sectors\<close>

text \<open>
  The flag constants live in headers that are not part of the sources at hand; each of
  them names a single bit, so a flag word is modelled as the set of the names of its
  bits: \<open>flags & MF_X\<close> is \<open>MF_X \<in> flags\<close>, \<open>flags |= MF_X\<close> is \<open>insert MF_X flags\<close>
  and \<open>flags &= ~MF_X\<close> is \<open>flags - {MF_X}\<close>.
\<close>

datatype mobjflag =
    MF_SPECIAL | MF_SOLID | MF_SHOOTABLE | MF_NOBLOCKMAP | MF_SPAWNCEILING
  | MF_NOGRAVITY | MF_DROPOFF | MF_PICKUP | MF_NOCLIP | MF_FLOAT | MF_TELEPORT
  | MF_MISSILE | MF_DROPPED | MF_FUZZ | MF_NOBLOOD | MF_CORPSE | MF_INFLOAT
  | MF_SKULLFLY | MF_FRIEND

datatype mobjflag2 =
    MF2_PASSMOBJ | MF2_FALLING | MF2_FOOTCLIP | MF2_FEETARECLIPPED
  | MF2_RESURRECTING | MF2_FLOATBOB | MF2_CRUSHABLE | MF2_MIRRORED

datatype lineflag = ML_BLOCKING | ML_BLOCKMONSTERS | ML_TWOSIDED

datatype mobjtype_t =
    MT_PLAYER | MT_BRUISER | MT_KNIGHT | MT_SPIDER | MT_CYBORG | MT_BARREL
  | MT_PLASMA | MT_ROCKET | MT_BOSSBRAIN | MT_MISC nat

datatype slopetype_t = ST_HORIZONTAL | ST_VERTICAL | ST_POSITIVE | ST_NEGATIVE

datatype terraintype_t = SOLID | LIQUID nat

text \<open>Pointers to map objects, players, lines and sectors are indices; \<open>NULL\<close> is \<open>None\<close>.\<close>

type_synonym mobj_ref = nat
type_synonym player_ref = nat
type_synonym line_ref = nat
type_synonym sector_ref = nat

record mobjinfo_t =
  spawnstate :: nat
  info_damage :: cint
  pickupradius :: fixed_t
  projectilepassheight :: fixed_t

text \<open>
  \<open>mobj_t\<close>.  The fields \<open>x\<close>, \<open>y\<close>, \<open>z\<close>, \<open>type\<close> carry a prefix.  \<open>subsector_sector\<close> is
  \<open>subsector->sector\<close>.  \<open>touching_sectorlist\<close> is the thread of membership nodes that
  starts at the field of that name, given as the sequence of the \<open>m_sector\<close> of its nodes
  along \<open>m_tnext\<close>; the functions of this part only read it.  The node store itself, with
  the functions that rebuild the threads, is the subject of the last part.
\<close>

record mobj_t =
  mobj_x :: fixed_t
  mobj_y :: fixed_t
  mobj_z :: fixed_t
  radius :: fixed_t
  height :: fixed_t
  momx :: fixed_t
  momy :: fixed_t
  momz :: fixed_t
  flags :: "mobjflag set"
  flags2 :: "mobjflag2 set"
  floorz :: fixed_t
  ceilingz :: fixed_t
  dropoffz :: fixed_t
  mobj_type :: mobjtype_t
  info :: mobjinfo_t
  player :: "player_ref option"
  target :: "mobj_ref option"
  health :: cint
  nudge :: cint
  interpolate :: cint
  subsector_sector :: sector_ref
  touching_sectorlist :: "sector_ref list"

record player_t =
  player_mo :: mobj_ref
  player_momx :: fixed_t
  player_momy :: fixed_t
  distancetraveled :: cint
  shotshit :: cint

record bbox_t =
  BOXTOP :: fixed_t
  BOXBOTTOM :: fixed_t
  BOXLEFT :: fixed_t
  BOXRIGHT :: fixed_t

record line_t =
  line_dx :: fixed_t
  line_dy :: fixed_t
  line_flags :: "lineflag set"
  line_special :: "16 word"
  line_bbox :: bbox_t
  slopetype :: slopetype_t
  frontsector :: sector_ref
  backsector :: "sector_ref option"

record sector_t =
  floorheight :: fixed_t
  ceilingheight :: fixed_t
  sector_special :: "16 word"
  friction :: cint
  movefactor :: cint
  heightsec :: "sector_ref option"
  terraintype :: terraintype_t

text \<open>What \<open>P_LineOpening\<close> leaves in \<open>opentop\<close>, \<open>openbottom\<close>, \<open>openrange\<close>, \<open>lowfloor\<close>.\<close>

record opening_t =
  opentop :: fixed_t
  openbottom :: fixed_t
  openrange :: fixed_t
  lowfloor :: fixed_t

record intercept_t =
  frac :: fixed_t
  d_line :: line_ref

section \<open>The surroundings of p_map.c\<close>

text \<open>
  Everything \<open>p_map.c\<close> takes from the rest of the program and does not change: constants
  and tables of the headers, the level geometry, the blockmap, pure helper functions, and
  variables of other modules that are only read here.  \<open>P_CheckSight\<close> is the sight test
  as a relation between two map objects; nothing that consults it moves an object.  None of it is among the sources,
  so it is a parameter of every function below.
\<close>

record env =
  \<comment> \<open>constants\<close>
  FRACBITS :: nat
  MAXRADIUS :: fixed_t
  ORIG_FRICTION :: cint
  ORIG_FRICTION_FACTOR :: cint
  FRICTION_MASK :: "16 word"
  TICRATE :: cint
  ANGLETOFINESHIFT :: nat
  ANG45 :: angle_t
  ANG90 :: angle_t
  ANG180 :: angle_t
  \<comment> \<open>geometry and blockmap\<close>
  lines :: "line_ref \<Rightarrow> line_t"
  sectors :: "sector_ref \<Rightarrow> sector_t"
  R_PointInSubsector_sector :: "fixed_t \<Rightarrow> fixed_t \<Rightarrow> sector_ref"
  bmaporgx :: fixed_t
  bmaporgy :: fixed_t
  P_GetSafeBlockX :: "fixed_t \<Rightarrow> int"
  P_GetSafeBlockY :: "fixed_t \<Rightarrow> int"
  blockthings :: "int \<Rightarrow> int \<Rightarrow> mobj_ref list"
  blocklines :: "int \<Rightarrow> int \<Rightarrow> line_ref list"
  P_PointOnLineSide :: "fixed_t \<Rightarrow> fixed_t \<Rightarrow> line_ref \<Rightarrow> cint"
  P_BoxOnLineSide :: "bbox_t \<Rightarrow> line_ref \<Rightarrow> cint"
  P_LineOpening :: "line_ref \<Rightarrow> opening_t"
  P_PathTraverse_lines :: "fixed_t \<Rightarrow> fixed_t \<Rightarrow> fixed_t \<Rightarrow> fixed_t \<Rightarrow> intercept_t list"
  P_CheckSight :: "mobj_ref \<Rightarrow> mobj_ref \<Rightarrow> bool"
  \<comment> \<open>arithmetic helpers and tables\<close>
  FixedMul :: "fixed_t \<Rightarrow> fixed_t \<Rightarrow> fixed_t"
  P_ApproxDistance :: "fixed_t \<Rightarrow> fixed_t \<Rightarrow> fixed_t"
  R_PointToAngle2 :: "fixed_t \<Rightarrow> fixed_t \<Rightarrow> fixed_t \<Rightarrow> fixed_t \<Rightarrow> angle_t"
  finesine :: "nat \<Rightarrow> fixed_t"
  finecosine :: "nat \<Rightarrow> fixed_t"
  hypot_fixed :: "fixed_t \<Rightarrow> fixed_t \<Rightarrow> fixed_t"
  SafeAdd :: "cint \<Rightarrow> cint \<Rightarrow> cint"
  \<comment> \<open>whether the C library's \<open>realloc\<close> grants an array of that many line pointers\<close>
  realloc_ok :: "nat \<Rightarrow> bool"
  \<comment> \<open>the random number generator, as the sequence of its results\<close>
  M_Random :: "nat \<Rightarrow> cint"
  M_RandomInt :: "nat \<Rightarrow> cint \<Rightarrow> cint \<Rightarrow> cint"
  M_RandomIntNoRepeat :: "nat \<Rightarrow> cint \<Rightarrow> cint \<Rightarrow> cint \<Rightarrow> cint"
  \<comment> \<open>relinking of a map object (p_maputl.c): the subsector and the membership thread
      the object has afterwards\<close>
  P_UnsetThingPosition :: "mobj_t \<Rightarrow> sector_ref \<times> sector_ref list"
  P_SetThingPosition :: "mobj_t \<Rightarrow> sector_ref \<times> sector_ref list"
  \<comment> \<open>variables of other modules, read only\<close>
  freeze :: bool
  infiniteheight :: bool
  infight :: bool
  species_infighting :: bool
  r_corpses_nudge :: bool
  gamemap :: cint
  telefragonmap30 :: bool
  viewplayer :: player_ref

definition FRACUNIT :: "env \<Rightarrow> fixed_t" where
  "FRACUNIT e = push_bit (FRACBITS e) 1"


section \<open>The state\<close>

text \<open>
  Calls into the modules that collaborate with \<open>p_map.c\<close> (damage, pickups, state changes,
  line triggers, sound) are recorded in the order in which they are issued.  What those
  modules then do to the world is their business and is not part of this development.
\<close>

datatype call =
    P_DamageMobj mobj_ref "mobj_ref option" "mobj_ref option" cint bool
  | P_TouchSpecialThing mobj_ref mobj_ref bool bool
  | P_SetMobjState mobj_ref nat
  | P_CrossSpecialLine line_ref cint mobj_ref
  | S_StartSound_oof mobj_ref

text \<open>
  The map objects, the players, and the file-scope variables of \<open>p_map.c\<close>.  \<open>spechit\<close>
  holds the first \<open>numspechit\<close> entries of the array of that name; \<open>spechit_max\<close> is the
  static counter of \<open>PIT_CheckLine\<close>.  \<open>prndindex\<close> counts the random numbers drawn.
\<close>

record world =
  mobjs :: "mobj_ref \<Rightarrow> mobj_t"
  players :: "player_ref \<Rightarrow> player_t"
  calls :: "call list"
  prndindex :: nat
  validcount :: cint
  stat_distancetraveled :: cint
  stat_shotshit :: cint
  tmthing :: mobj_ref
  tmx :: fixed_t
  tmy :: fixed_t
  tmz :: fixed_t
  floatok :: bool
  felldown :: bool
  tmbbox :: bbox_t
  tmfloorz :: fixed_t
  tmceilingz :: fixed_t
  tmdropoffz :: fixed_t
  ceilingline :: "line_ref option"
  blockline :: "line_ref option"
  floorline :: "line_ref option"
  tmunstuck :: bool
  spechit :: "line_ref list"
  spechit_max :: nat
  telefrag :: bool
  bestslidefrac :: fixed_t
  bestslideline :: "line_ref option"
  slidemo :: mobj_ref
  tmxmove :: fixed_t
  tmymove :: fixed_t
  bombsource :: "mobj_ref option"
  bombspot :: mobj_ref
  bombdamage :: cint
  bombverticality :: bool

definition update_mobj :: "mobj_ref \<Rightarrow> (mobj_t \<Rightarrow> mobj_t) \<Rightarrow> world \<Rightarrow> world" where
  \<comment> \<open>a write through a \<open>mobj_t *\<close>\<close>
  "update_mobj t f w = w\<lparr>mobjs := (mobjs w)(t := f (mobjs w t))\<rparr>"

definition issue :: "call \<Rightarrow> world \<Rightarrow> world" where
  "issue c w = w\<lparr>calls := calls w @ [c]\<rparr>"

section \<open>The blockmap iterators\<close>

text \<open>
  Modelled from the spec: \<open>P_BlockThingsIterator\<close> and \<open>P_BlockLinesIterator\<close>
  (p_maputl.c) are missing.  The spatial index yields, for a cell, the sequence of the
  entities and of the lines in it, each visited at most once per query, and the caller
  may stop early: the callback is run on each element in turn until it returns false.
\<close>

definition first_visits :: "'a list \<Rightarrow> 'a list" where
  \<comment> \<open>every element at its first occurrence only\<close>
  "first_visits xs = rev (remdups (rev xs))"

fun iterate_things :: "(mobj_ref \<Rightarrow> world \<Rightarrow> bool \<times> world) \<Rightarrow> mobj_ref list \<Rightarrow> world \<Rightarrow> bool \<times> world" where
  "iterate_things func [] w = (True, w)"
| "iterate_things func (t # ts) w =
     (case func t w of (ok, w') \<Rightarrow> if ok then iterate_things func ts w' else (False, w'))"

definition cells_bx_by :: "int \<Rightarrow> int \<Rightarrow> int \<Rightarrow> int \<Rightarrow> (int \<times> int) list" where
  \<comment> \<open>\<open>for (bx = xl; bx <= xh; bx++) for (by = yl; by <= yh; by++)\<close>\<close>
  "cells_bx_by xl xh yl yh = concat (map (\<lambda>bx. map (\<lambda>by. (bx, by)) [yl..yh]) [xl..xh])"


definition things_in_cells :: "env \<Rightarrow> (int \<times> int) list \<Rightarrow> mobj_ref list" where
  "things_in_cells e cs = first_visits (concat (map (\<lambda>(bx, by). blockthings e bx by) cs))"

definition lines_in_cells :: "env \<Rightarrow> (int \<times> int) list \<Rightarrow> line_ref list" where
  "lines_in_cells e cs = first_visits (concat (map (\<lambda>(bx, by). blocklines e bx by) cs))"

section \<open>Teleport move\<close>

definition PIT_StompThing :: "env \<Rightarrow> mobj_ref \<Rightarrow> world \<Rightarrow> bool \<times> world" where
  "PIT_StompThing e thing w =
    (let th = mobjs w thing; tm = mobjs w (tmthing w) in
     if thing = tmthing w then (True, w)
     else if MF_SHOOTABLE \<notin> flags th then (True, w)
     else let blockdist = radius th + radius tm in
       if blockdist \<le>s ABS (mobj_x th - tmx w) \<or> blockdist \<le>s ABS (mobj_y th - tmy w)
       then (True, w)
       else if \<not> telefrag w then (False, w)
       else if MF2_PASSMOBJ \<in> flags2 tm \<and> \<not> infiniteheight e
               \<and> (mobj_z th + height th <s tmz w \<or> tmz w + height tm <s mobj_z th)
       then (True, w)
       else (True, issue (P_DamageMobj thing (Some (tmthing w)) (Some (tmthing w)) 10000 True) w))"

section \<open>Friction\<close>

fun friction_scan :: "env \<Rightarrow> mobj_t \<Rightarrow> sector_ref list \<Rightarrow> cint \<times> cint \<Rightarrow> cint \<times> cint" where
  \<comment> \<open>the loop of \<open>P_GetFriction\<close> over \<open>mo->touching_sectorlist\<close>, on \<open>(friction, movefactor)\<close>\<close>
  "friction_scan e mo [] fm = fm"
| "friction_scan e mo (m # ms) fm =
    (let sec = sectors e m in
     if sector_special sec AND FRICTION_MASK e \<noteq> 0
        \<and> (friction sec <s fst fm \<or> fst fm = ORIG_FRICTION e)
        \<and> (mobj_z mo \<le>s floorheight sec
            \<or> (case heightsec sec of None \<Rightarrow> False
                | Some hs \<Rightarrow> mobj_z mo \<le>s floorheight (sectors e hs)))
     then friction_scan e mo ms (friction sec, movefactor sec)
     else friction_scan e mo ms fm)"

definition P_GetFriction :: "env \<Rightarrow> mobj_t \<Rightarrow> cint \<times> cint" where
  \<comment> \<open>the result and what is stored through \<open>frictionfactor\<close>\<close>
  "P_GetFriction e mo =
    (if flags mo \<inter> {MF_NOCLIP, MF_NOGRAVITY} = {}
     then friction_scan e mo (touching_sectorlist mo) (ORIG_FRICTION e, ORIG_FRICTION_FACTOR e)
     else (ORIG_FRICTION e, ORIG_FRICTION_FACTOR e))"

definition P_IsInLiquid :: "env \<Rightarrow> mobj_t \<Rightarrow> bool" where
  "P_IsInLiquid e thing =
    (if MF_SHOOTABLE \<notin> flags thing
     then terraintype (sectors e (subsector_sector thing)) \<noteq> SOLID
     else list_all (\<lambda>s. terraintype (sectors e s) \<noteq> SOLID) (touching_sectorlist thing))"

definition relink :: "(mobj_t \<Rightarrow> sector_ref \<times> sector_ref list) \<Rightarrow> mobj_ref \<Rightarrow> world \<Rightarrow> world" where
  \<comment> \<open>a call of \<open>P_UnsetThingPosition\<close> or \<open>P_SetThingPosition\<close>\<close>
  "relink link thing w =
    update_mobj thing (\<lambda>m. m\<lparr>subsector_sector := fst (link m), touching_sectorlist := snd (link m)\<rparr>) w"

definition clip_feet :: "env \<Rightarrow> mobj_ref \<Rightarrow> world \<Rightarrow> world" where
  \<comment> \<open>"check if new sector is liquid and clip/unclip feet as necessary"\<close>
  "clip_feet e thing w =
    update_mobj thing (\<lambda>m.
      if MF2_FOOTCLIP \<in> flags2 m \<and> P_IsInLiquid e m
      then m\<lparr>flags2 := insert MF2_FEETARECLIPPED (flags2 m)\<rparr>
      else m\<lparr>flags2 := flags2 m - {MF2_FEETARECLIPPED}\<rparr>) w"

definition box_around :: "fixed_t \<Rightarrow> fixed_t \<Rightarrow> fixed_t \<Rightarrow> bbox_t" where
  "box_around x y r = \<lparr>BOXTOP = y + r, BOXBOTTOM = y - r, BOXLEFT = x - r, BOXRIGHT = x + r\<rparr>"

definition thing_cells :: "env \<Rightarrow> bbox_t \<Rightarrow> (int \<times> int) list" where
  \<comment> \<open>the cells searched for things: the box extended by \<open>MAXRADIUS\<close>\<close>
  "thing_cells e bb =
     cells_bx_by (P_GetSafeBlockX e (BOXLEFT bb - bmaporgx e - MAXRADIUS e))
                 (P_GetSafeBlockX e (BOXRIGHT bb - bmaporgx e + MAXRADIUS e))
                 (P_GetSafeBlockY e (BOXBOTTOM bb - bmaporgy e - MAXRADIUS e))
                 (P_GetSafeBlockY e (BOXTOP bb - bmaporgy e + MAXRADIUS e))"

definition line_cells :: "env \<Rightarrow> bbox_t \<Rightarrow> (int \<times> int) list" where
  "line_cells e bb =
     cells_bx_by (P_GetSafeBlockX e (BOXLEFT bb - bmaporgx e))
                 (P_GetSafeBlockX e (BOXRIGHT bb - bmaporgx e))
                 (P_GetSafeBlockY e (BOXBOTTOM bb - bmaporgy e))
                 (P_GetSafeBlockY e (BOXTOP bb - bmaporgy e))"

definition teleport_setup ::
  "env \<Rightarrow> mobj_ref \<Rightarrow> fixed_t \<Rightarrow> fixed_t \<Rightarrow> fixed_t \<Rightarrow> bool \<Rightarrow> world \<Rightarrow> world" where
  \<comment> \<open>\<open>P_TeleportMove\<close> up to the search of the blockmap\<close>
  "teleport_setup e thing x y z boss w =
    (let th = mobjs w thing;
         newsec = sectors e (R_PointInSubsector_sector e x y)
     in w\<lparr>telefrag := (player th \<noteq> None \<or> boss \<or> (gamemap e = 30 \<and> telefragonmap30 e)),
          tmthing := thing, tmx := x, tmy := y, tmz := z,
          tmbbox := box_around x y (radius th),
          ceilingline := None,
          tmfloorz := floorheight newsec, tmdropoffz := floorheight newsec,
          tmceilingz := ceilingheight newsec,
          validcount := validcount w + 1, spechit := []\<rparr>)"

definition teleport_commit :: "env \<Rightarrow> mobj_ref \<Rightarrow> fixed_t \<Rightarrow> fixed_t \<Rightarrow> world \<Rightarrow> world" where
  \<comment> \<open>"the move is ok, so link the thing into its new position"\<close>
  "teleport_commit e thing x y w =
    (let w1 = relink (P_UnsetThingPosition e) thing w;
         w2 = update_mobj thing (\<lambda>m. m\<lparr>floorz := tmfloorz w1, ceilingz := tmceilingz w1,
                 dropoffz := tmdropoffz w1, mobj_x := x, mobj_y := y, interpolate := 0\<rparr>) w1;
         w3 = relink (P_SetThingPosition e) thing w2
     in clip_feet e thing w3)"

definition P_TeleportMove ::
  "env \<Rightarrow> mobj_ref \<Rightarrow> fixed_t \<Rightarrow> fixed_t \<Rightarrow> fixed_t \<Rightarrow> bool \<Rightarrow> world \<Rightarrow> bool \<times> world" where
  "P_TeleportMove e thing x y z boss w =
    (let w1 = teleport_setup e thing x y z boss w in
     case iterate_things (PIT_StompThing e) (things_in_cells e (thing_cells e (tmbbox w1))) w1 of
       (ok, w2) \<Rightarrow> if \<not> ok then (False, w2) else (True, teleport_commit e thing x y w2))"

section \<open>Radius attack\<close>




section \<open>Movement iterator functions\<close>

definition untouched :: "env \<Rightarrow> line_ref \<Rightarrow> world \<Rightarrow> bool" where
  "untouched e ld w =
    (let tm = mobjs w (tmthing w); lb = line_bbox (lines e ld);
         bbox = box_around (mobj_x tm) (mobj_y tm) (radius tm)
     in BOXRIGHT bbox \<le>s BOXLEFT lb \<or> BOXRIGHT lb \<le>s BOXLEFT bbox
        \<or> BOXTOP bbox \<le>s BOXBOTTOM lb \<or> BOXTOP lb \<le>s BOXBOTTOM bbox
        \<or> P_BoxOnLineSide e bbox ld \<noteq> - 1)"

definition I_Realloc :: "env \<Rightarrow> nat \<Rightarrow> unit option" where
  \<comment> \<open>i_system.c: \<open>I_Error\<close> ends the process when \<open>realloc\<close> fails for a size that is not 0\<close>
  "I_Realloc e n = (if \<not> realloc_ok e n \<and> n \<noteq> 0 then None else Some ())"

definition add_spechit :: "env \<Rightarrow> line_ref \<Rightarrow> world \<Rightarrow> world option" where
  \<comment> \<open>"if contacted a special line, add it to the list"\<close>
  "add_spechit e ld w =
    (if spechit_max w \<le> length (spechit w)
     then let m = (if spechit_max w \<noteq> 0 then spechit_max w * 2 else 8) in
          (case I_Realloc e m of
             None \<Rightarrow> None
           | Some _ \<Rightarrow> Some (w\<lparr>spechit_max := m, spechit := spechit w @ [ld]\<rparr>))
     else Some (w\<lparr>spechit := spechit w @ [ld]\<rparr>))"

definition PIT_CheckLine :: "env \<Rightarrow> line_ref \<Rightarrow> world \<Rightarrow> (bool \<times> world) option" where
  \<comment> \<open>\<open>None\<close>: the process has ended in \<open>I_Error\<close>\<close>
  "PIT_CheckLine e ld w =
    (let l = lines e ld; lb = line_bbox l; tb = tmbbox w; tm = mobjs w (tmthing w) in
     if BOXRIGHT tb \<le>s BOXLEFT lb \<or> BOXRIGHT lb \<le>s BOXLEFT tb
        \<or> BOXTOP tb \<le>s BOXBOTTOM lb \<or> BOXTOP lb \<le>s BOXBOTTOM tb
     then Some (True, w)
     else if P_BoxOnLineSide e tb ld \<noteq> - 1 then Some (True, w)
     else if backsector l = None then
       Some (tmunstuck w \<and> \<not> untouched e ld w
               \<and> FixedMul e (tmy w - mobj_y tm) (line_dx l) <s FixedMul e (tmx w - mobj_x tm) (line_dy l),
             w\<lparr>blockline := Some ld\<rparr>)
     else if MF_MISSILE \<notin> flags tm \<and> ML_BLOCKING \<in> line_flags l then
       Some (tmunstuck w \<and> \<not> untouched e ld w, w)
     else if MF_MISSILE \<notin> flags tm \<and> player tm = None \<and> MF_CORPSE \<notin> flags tm
             \<and> MF_FRIEND \<notin> flags tm \<and> ML_BLOCKMONSTERS \<in> line_flags l then
       Some (False, w)
     else
       let op = P_LineOpening e ld;
           w1 = (if opentop op <s tmceilingz w
                 then w\<lparr>tmceilingz := opentop op, ceilingline := Some ld, blockline := Some ld\<rparr>
                 else w);
           w2 = (if tmfloorz w1 <s openbottom op
                 then w1\<lparr>tmfloorz := openbottom op, floorline := Some ld, blockline := Some ld\<rparr>
                 else w1);
           w3 = (if lowfloor op <s tmdropoffz w2 then w2\<lparr>tmdropoffz := lowfloor op\<rparr> else w2)
       in if line_special l \<noteq> 0
          then (case add_spechit e ld w3 of None \<Rightarrow> None | Some w4 \<Rightarrow> Some (True, w4))
          else Some (True, w3))"

definition count_shot :: "env \<Rightarrow> world \<Rightarrow> world" where
  \<comment> \<open>\<open>viewplayer->shotshit++; stat_shotshit = SafeAdd(stat_shotshit, 1);\<close>\<close>
  "count_shot e w =
     w\<lparr>players := (players w)(viewplayer e :=
            (players w (viewplayer e))\<lparr>shotshit := shotshit (players w (viewplayer e)) + 1\<rparr>),
       stat_shotshit := SafeAdd e (stat_shotshit w) 1\<rparr>"

definition nudge_corpse :: "env \<Rightarrow> mobj_ref \<Rightarrow> world \<Rightarrow> world" where
  \<comment> \<open>"apply small amount of momentum to a corpse when a monster walks over it"\<close>
  "nudge_corpse e thing w =
    (let th = mobjs w thing; tm = mobjs w (tmthing w) in
     if MF_CORPSE \<in> flags th \<and> MF_SHOOTABLE \<in> flags tm \<and> mobj_type th \<noteq> MT_BARREL
        \<and> nudge th = 0 \<and> mobj_z th = mobj_z tm \<and> r_corpses_nudge e
        \<and> P_ApproxDistance e (mobj_x th - mobj_x tm) (mobj_y th - mobj_y tm) <s 16 * FRACUNIT e
     then
       let r = M_RandomInt e (prndindex w) (- 1) 1;
           r2 = M_RandomIntNoRepeat e (prndindex w + 1) (- 1) 1 (if r = 0 then 0 else 2);
           w1 = w\<lparr>prndindex := prndindex w + 2\<rparr>;
           w2 = update_mobj thing (\<lambda>m. m\<lparr>momx := momx m + FRACUNIT e * r,
                   momy := momy m + FRACUNIT e * r2, nudge := TICRATE e\<rparr>) w1
       in if MF2_FEETARECLIPPED \<notin> flags2 th
          then update_mobj thing (\<lambda>m. m\<lparr>momx := cdiv (momx m) 2, momy := cdiv (momy m) 2\<rparr>) w2
          else w2
     else w)"

definition unblocking_test :: "env \<Rightarrow> mobj_ref \<Rightarrow> bool \<Rightarrow> world \<Rightarrow> bool" where
  \<comment> \<open>"check if things are stuck and allow move if it makes them further apart": the
      value of \<open>unblocking\<close>; the third argument is \<open>corpse\<close>\<close>
  "unblocking_test e thing corpse w =
    (let th = mobjs w thing; tm = mobjs w (tmthing w) in
     if player th = None \<and> \<not> corpse then
       (if tmx w = mobj_x tm \<and> tmy w = mobj_y tm then True
        else if P_ApproxDistance e (mobj_x th - mobj_x tm) (mobj_y th - mobj_y tm)
                  <s P_ApproxDistance e (mobj_x th - tmx w) (mobj_y th - tmy w)
        then mobj_z tm <s mobj_z th + height th \<and> mobj_z th <s mobj_z tm + height tm
        else False)
     else False)"

definition skull_slam :: "env \<Rightarrow> mobj_ref \<Rightarrow> world \<Rightarrow> world" where
  \<comment> \<open>"check for skulls slamming into things": the body of the \<open>if\<close>\<close>
  "skull_slam e thing w =
    (let tm = mobjs w (tmthing w);
         w1 = issue (P_DamageMobj thing (Some (tmthing w)) (Some (tmthing w))
                       (((M_Random e (prndindex w) AND 7) + 1) * info_damage (info tm)) True)
                    (w\<lparr>prndindex := prndindex w + 1\<rparr>);
         w2 = update_mobj (tmthing w) (\<lambda>m. m\<lparr>flags := flags m - {MF_SKULLFLY},
                 momx := 0, momy := 0, momz := 0\<rparr>) w1
     in issue (P_SetMobjState (tmthing w) (spawnstate (info tm))) w2)"

definition missile_damage :: "env \<Rightarrow> mobj_ref \<Rightarrow> world \<Rightarrow> world" where
  \<comment> \<open>"damage/explode", with the count of the player's shots that hit\<close>
  "missile_damage e thing w =
    (let th = mobjs w thing; tm = mobjs w (tmthing w);
         w1 = issue (P_DamageMobj thing (Some (tmthing w)) (target tm)
                       (((M_Random e (prndindex w) AND 7) + 1) * info_damage (info tm)) True)
                    (w\<lparr>prndindex := prndindex w + 1\<rparr>)
     in
     if mobj_type th \<noteq> MT_BARREL then
       (if mobj_type tm = MT_PLASMA then count_shot e w1
        else if mobj_type tm = MT_ROCKET then
          update_mobj (tmthing w) (\<lambda>m. m\<lparr>nudge := nudge m + 1\<rparr>)
            (if nudge tm = 1 then count_shot e w1 else w1)
        else w1)
     else w1)"

definition missile_hit ::
  "env \<Rightarrow> mobj_ref \<Rightarrow> mobjflag set \<Rightarrow> mobjflag set \<Rightarrow> mobjtype_t \<Rightarrow> world \<Rightarrow> bool \<times> world" where
  \<comment> \<open>"missiles can hit other things": the body of \<open>if (tmflags & MF_MISSILE)\<close>, with the
      locals \<open>flags\<close>, \<open>tmflags\<close> and \<open>type\<close>\<close>
  "missile_hit e thing fl tmflags type w =
    (let th = mobjs w thing; tm = mobjs w (tmthing w);
         h0 = projectilepassheight (info th);
         h = (if h0 = 0 \<or> infiniteheight e then height th else h0);
         same_species =
           (case target tm of None \<Rightarrow> False
            | Some tg \<Rightarrow> mobj_type (mobjs w tg) = type
                \<or> (mobj_type (mobjs w tg) = MT_KNIGHT \<and> type = MT_BRUISER)
                \<or> (mobj_type (mobjs w tg) = MT_BRUISER \<and> type = MT_KNIGHT))
     in
     if mobj_z th + h <s mobj_z tm then (True, w)
     else if mobj_z tm + height tm <s mobj_z th then (True, w)
     else if same_species \<and> Some thing = target tm then (True, w)
     else if same_species \<and> type \<noteq> MT_PLAYER \<and> \<not> infight e \<and> \<not> species_infighting e
     then (False, w)
     else if MF_MISSILE \<notin> tmflags \<and> MF_SOLID \<notin> fl then (True, w)
     else if MF_MISSILE \<notin> tmflags then
       (False,
        update_mobj (tmthing w)
          (\<lambda>m. if MF_NOGRAVITY \<notin> tmflags
                then m\<lparr>momx := asr (- momx m) 2, momy := asr (- momy m) 2\<rparr>
                else m\<lparr>momx := - momx m, momy := - momy m\<rparr>) w)
     else if MF_SHOOTABLE \<notin> fl then (MF_SOLID \<notin> fl, w)
     else (False, missile_damage e thing w))"

definition PIT_CheckThing :: "env \<Rightarrow> mobj_ref \<Rightarrow> world \<Rightarrow> bool \<times> world" where
  "PIT_CheckThing e thing w0 =
    (if thing = tmthing w0 then (True, w0)
     else
      let fl = flags (mobjs w0 thing); tmflags = flags (mobjs w0 (tmthing w0));
          corpse = (MF_CORPSE \<in> fl); type = mobj_type (mobjs w0 thing);
          w = nudge_corpse e thing w0;
          th = mobjs w thing; tm = mobjs w (tmthing w);
          blockdist = pickupradius (info th) + radius tm
      in
      if fl \<inter> {MF_SOLID, MF_SPECIAL, MF_SHOOTABLE} = {} then (True, w)
      else if blockdist \<le>s ABS (mobj_x th - tmx w) \<or> blockdist \<le>s ABS (mobj_y th - tmy w)
      then (True, w)
      else if MF2_PASSMOBJ \<in> flags2 tm \<and> \<not> infiniteheight e \<and> MF_SPECIAL \<notin> fl
              \<and> (mobj_z th + height th \<le>s mobj_z tm \<or> mobj_z tm + height tm \<le>s mobj_z th)
      then (True, w)
      else if MF_SKULLFLY \<in> tmflags \<and> (MF_SOLID \<in> fl \<or> infiniteheight e)
      then (False, skull_slam e thing w)
      else if MF_MISSILE \<in> tmflags then missile_hit e thing fl tmflags type w
      else if MF_SPECIAL \<in> fl then
        (MF_SOLID \<notin> fl,
         if MF_PICKUP \<in> tmflags then issue (P_TouchSpecialThing thing (tmthing w) True True) w else w)
      else if MF2_RESURRECTING \<notin> flags2 th \<and> (corpse \<or> MF_CORPSE \<in> tmflags) \<and> type \<noteq> MT_BARREL
      then (True, w)
      else if MF_SOLID \<in> fl \<and> MF_SPAWNCEILING \<in> fl \<and> mobj_z tm + height tm \<le>s mobj_z th
      then (True, w\<lparr>tmceilingz := mobj_z th\<rparr>)
      else (\<not> (MF_SOLID \<in> fl \<and> MF_NOCLIP \<notin> fl \<and> \<not> freeze e \<and> MF_SOLID \<in> tmflags)
            \<or> unblocking_test e thing corpse w, w))"

section \<open>Movement clipping\<close>

fun iterate_lines ::
  "(line_ref \<Rightarrow> world \<Rightarrow> (bool \<times> world) option) \<Rightarrow> line_ref list \<Rightarrow> world \<Rightarrow> (bool \<times> world) option" where
  "iterate_lines func [] w = Some (True, w)"
| "iterate_lines func (ld # lds) w =
     (case func ld w of
        None \<Rightarrow> None
      | Some (ok, w') \<Rightarrow> if ok then iterate_lines func lds w' else Some (False, w'))"

definition is_own_player :: "world \<Rightarrow> mobj_ref \<Rightarrow> bool" where
  \<comment> \<open>\<open>thing->player && thing->player->mo == thing\<close>: "only players", "not voodoo dolls"\<close>
  "is_own_player w thing =
     (case player (mobjs w thing) of None \<Rightarrow> False | Some p \<Rightarrow> player_mo (players w p) = thing)"

definition check_setup :: "env \<Rightarrow> mobj_ref \<Rightarrow> fixed_t \<Rightarrow> fixed_t \<Rightarrow> world \<Rightarrow> world" where
  \<comment> \<open>\<open>P_CheckPosition\<close> up to the test for \<open>MF_NOCLIP\<close>\<close>
  "check_setup e thing x y w =
    (let newsec = sectors e (R_PointInSubsector_sector e x y)
     in w\<lparr>tmthing := thing, tmx := x, tmy := y,
          tmbbox := box_around x y (radius (mobjs w thing)),
          floorline := None, blockline := None, ceilingline := None,
          tmunstuck := is_own_player w thing,
          tmfloorz := floorheight newsec, tmdropoffz := floorheight newsec,
          tmceilingz := ceilingheight newsec,
          validcount := validcount w + 1, spechit := []\<rparr>)"

definition check_lines :: "env \<Rightarrow> mobj_ref \<Rightarrow> fixed_t \<Rightarrow> fixed_t \<Rightarrow> world \<Rightarrow> (bool \<times> world) option" where
  \<comment> \<open>\<open>P_CheckPosition\<close> from the comment "check lines" on\<close>
  "check_lines e thing x y w =
    (let th = mobjs w thing;
         w1 = (if MF_DROPPED \<notin> flags th \<and> (mobj_x th \<noteq> x \<or> mobj_y th \<noteq> y)
               then w\<lparr>tmbbox := box_around x y (pickupradius (info th))\<rparr>
               else w)
     in iterate_lines (PIT_CheckLine e) (lines_in_cells e (line_cells e (tmbbox w1))) w1)"

definition P_CheckPosition ::
  "env \<Rightarrow> mobj_ref \<Rightarrow> fixed_t \<Rightarrow> fixed_t \<Rightarrow> world \<Rightarrow> (bool \<times> world) option" where
  "P_CheckPosition e thing x y w =
    (let w1 = check_setup e thing x y w in
     if MF_NOCLIP \<in> flags (mobjs w1 thing) \<or> freeze e then Some (True, w1)
     else
       case iterate_things (PIT_CheckThing e) (things_in_cells e (thing_cells e (tmbbox w1))) w1 of
         (ok, w2) \<Rightarrow> if \<not> ok then Some (False, w2) else check_lines e thing x y w2)"

fun cross_specials :: "env \<Rightarrow> mobj_ref \<Rightarrow> fixed_t \<Rightarrow> fixed_t \<Rightarrow> line_ref list \<Rightarrow> world \<Rightarrow> world" where
  \<comment> \<open>\<open>while (numspechit--)\<close>: the list is \<open>spechit\<close> read from its end.  The loop leaves
      \<open>numspechit\<close> at \<open>-1\<close>; every function of the file sets it to 0 before it adds a line,
      and the state shows the empty list.\<close>
  "cross_specials e thing oldx oldy [] w = w\<lparr>spechit := []\<rparr>"
| "cross_specials e thing oldx oldy (ld # lds) w =
    (let oldside = P_PointOnLineSide e oldx oldy ld; th = mobjs w thing;
         w1 = w\<lparr>spechit := rev lds\<rparr>
     in cross_specials e thing oldx oldy lds
          (if oldside \<noteq> P_PointOnLineSide e (mobj_x th) (mobj_y th) ld \<and> line_special (lines e ld) \<noteq> 0
           then issue (P_CrossSpecialLine ld oldside thing) w1
           else w1))"

definition too_tight :: "env \<Rightarrow> mobj_ref \<Rightarrow> world \<Rightarrow> bool" where
  \<comment> \<open>"doesn't fit", "mobj must lower to fit", "too big a step up"\<close>
  "too_tight e thing w =
    (let th = mobjs w thing in
     tmceilingz w - tmfloorz w <s height th
     \<or> (MF_TELEPORT \<notin> flags th \<and> tmceilingz w - mobj_z th <s height th)
     \<or> (MF_TELEPORT \<notin> flags th \<and> 24 * FRACUNIT e <s tmfloorz w - mobj_z th))"

definition may_escape :: "env \<Rightarrow> world \<Rightarrow> bool" where
  \<comment> \<open>"Possibly allow escape if otherwise stuck"\<close>
  "may_escape e w =
    (tmunstuck w
     \<and> \<not> (case ceilingline w of None \<Rightarrow> False | Some ld \<Rightarrow> untouched e ld w)
     \<and> \<not> (case floorline w of None \<Rightarrow> False | Some ld \<Rightarrow> untouched e ld w))"

definition commit_move :: "env \<Rightarrow> mobj_ref \<Rightarrow> fixed_t \<Rightarrow> fixed_t \<Rightarrow> world \<Rightarrow> world" where
  \<comment> \<open>"the move is ok, so link the thing into its new position"\<close>
  "commit_move e thing x y w =
    (let w1 = relink (P_UnsetThingPosition e) thing w;
         oldx = mobj_x (mobjs w1 thing); oldy = mobj_y (mobjs w1 thing);
         w2 = update_mobj thing (\<lambda>m. m\<lparr>floorz := tmfloorz w1, ceilingz := tmceilingz w1,
                 dropoffz := tmdropoffz w1, mobj_x := x, mobj_y := y\<rparr>) w1;
         w3 = relink (P_SetThingPosition e) thing w2;
         dist = hypot_fixed e (asr (x - oldx) (FRACBITS e)) (asr (y - oldy) (FRACBITS e));
         w4 = (case player (mobjs w3 thing) of
                 None \<Rightarrow> w3
               | Some p \<Rightarrow>
                   if player_mo (players w3 p) = thing \<and> dist \<noteq> 0
                   then w3\<lparr>stat_distancetraveled := SafeAdd e (stat_distancetraveled w3) dist,
                           players := (players w3)(p := (players w3 p)
                              \<lparr>distancetraveled := distancetraveled (players w3 p) + dist\<rparr>)\<rparr>
                   else w3);
         w5 = clip_feet e thing w4
     in if flags (mobjs w5 thing) \<inter> {MF_TELEPORT, MF_NOCLIP} = {} \<and> \<not> freeze e
        then cross_specials e thing oldx oldy (rev (spechit w5)) w5
        else w5)"

definition drop_refused :: "env \<Rightarrow> mobj_ref \<Rightarrow> bool \<Rightarrow> world \<Rightarrow> bool" where
  \<comment> \<open>the drop is too deep for a thing that may not drop off: \<open>return false\<close>\<close>
  "drop_refused e thing dropoff w =
    (let th = mobjs w thing in
     flags th \<inter> {MF_DROPOFF, MF_FLOAT} = {} \<and> \<not> dropoff
     \<and> (24 * FRACUNIT e <s floorz th - tmfloorz w \<or> 24 * FRACUNIT e <s dropoffz th - tmdropoffz w))"

definition set_felldown :: "env \<Rightarrow> mobj_ref \<Rightarrow> bool \<Rightarrow> world \<Rightarrow> world" where
  \<comment> \<open>"dropoff allowed -- check for whether it fell more than 24"\<close>
  "set_felldown e thing dropoff w =
    (let th = mobjs w thing in
     if flags th \<inter> {MF_DROPOFF, MF_FLOAT} = {} \<and> dropoff
     then w\<lparr>felldown := (MF_NOGRAVITY \<notin> flags th \<and> 24 * FRACUNIT e <s mobj_z th - tmfloorz w)\<rparr>
     else w)"

definition fall_refused :: "env \<Rightarrow> mobj_ref \<Rightarrow> world \<Rightarrow> bool" where
  \<comment> \<open>"prevent falling objects from going up too many steps"\<close>
  "fall_refused e thing w =
    (let th = mobjs w thing in
     MF2_FALLING \<in> flags2 th
     \<and> FixedMul e (momx th) (momx th) + FixedMul e (momy th) (momy th) <s tmfloorz w - mobj_z th)"

definition P_TryMove ::
  "env \<Rightarrow> mobj_ref \<Rightarrow> fixed_t \<Rightarrow> fixed_t \<Rightarrow> bool \<Rightarrow> world \<Rightarrow> (bool \<times> world) option" where
  \<comment> \<open>\<open>None\<close>: the process has ended in \<open>I_Error\<close>.  \<open>floatok = true\<close> is the first operand
      of the comma in the second disjunct of the test, reached when the first is false.\<close>
  "P_TryMove e thing x y dropoff w =
    (case P_CheckPosition e thing x y (w\<lparr>felldown := False, floatok := False\<rparr>) of
       None \<Rightarrow> None
     | Some (ok, w1) \<Rightarrow>
        if \<not> ok then Some (False, w1)
        else if MF_NOCLIP \<in> flags (mobjs w1 thing) \<or> freeze e
        then Some (True, commit_move e thing x y w1)
        else
          let w2 = (if tmceilingz w1 - tmfloorz w1 <s height (mobjs w1 thing)
                    then w1 else w1\<lparr>floatok := True\<rparr>)
          in
          if too_tight e thing w2 then Some (may_escape e w2, w2)
          else if drop_refused e thing dropoff w2 then Some (False, w2)
          else
            let w3 = set_felldown e thing dropoff w2 in
            if fall_refused e thing w3 then Some (False, w3)
            else Some (True, commit_move e thing x y w3))"

section \<open>Slide move\<close>

definition oof :: "mobj_ref \<Rightarrow> world \<Rightarrow> world" where
  \<comment> \<open>\<open>if (slidemo->player && slidemo->health > 0) S_StartSound(slidemo, sfx_oof);\<close>\<close>
  "oof mo w =
     (if player (mobjs w mo) \<noteq> None \<and> 0 <s health (mobjs w mo) then issue (S_StartSound_oof mo) w else w)"

definition P_HitSlideLine :: "env \<Rightarrow> line_ref \<Rightarrow> world \<Rightarrow> world" where
  "P_HitSlideLine e ld w =
    (let l = lines e ld; sm = mobjs w (slidemo w);
         icyfloor = (4 * FRACUNIT e <s P_ApproxDistance e (tmxmove w) (tmymove w)
                     \<and> mobj_z sm \<le>s floorz sm
                     \<and> ORIG_FRICTION e <s fst (P_GetFriction e sm))
     in
     if slopetype l = ST_HORIZONTAL then
       (if icyfloor \<and> ABS (tmxmove w) <s ABS (tmymove w)
        then (oof (slidemo w) w)\<lparr>tmxmove := cdiv (tmxmove w) 2, tmymove := cdiv (- tmymove w) 2\<rparr>
        else w\<lparr>tmymove := 0\<rparr>)
     else if slopetype l = ST_VERTICAL then
       (if icyfloor \<and> ABS (tmymove w) <s ABS (tmxmove w)
        then (oof (slidemo w) w)\<lparr>tmxmove := cdiv (- tmxmove w) 2, tmymove := cdiv (tmymove w) 2\<rparr>
        else w\<lparr>tmxmove := 0\<rparr>)
     else
       let side = P_PointOnLineSide e (mobj_x sm) (mobj_y sm) ld;
           lineangle0 = R_PointToAngle2 e 0 0 (line_dx l) (line_dy l);
           lineangle = (if side = 1 then lineangle0 + ANG180 e else lineangle0);
           moveangle = R_PointToAngle2 e 0 0 (tmxmove w) (tmymove w) + 10;
           deltaangle = moveangle - lineangle;
           movelen = P_ApproxDistance e (tmxmove w) (tmymove w)
       in
       if icyfloor \<and> ANG45 e < deltaangle \<and> deltaangle < ANG90 e + ANG45 e then
         let fineangle = unat (drop_bit (ANGLETOFINESHIFT e) (lineangle - deltaangle));
             halflen = cdiv movelen 2
         in oof (slidemo w)
              (w\<lparr>tmxmove := FixedMul e halflen (finecosine e fineangle),
                 tmymove := FixedMul e halflen (finesine e fineangle)\<rparr>)
       else
         let deltaangle' = (if ANG180 e < deltaangle then deltaangle + ANG180 e else deltaangle);
             linefine = unat (drop_bit (ANGLETOFINESHIFT e) lineangle);
             deltafine = unat (drop_bit (ANGLETOFINESHIFT e) deltaangle');
             newlen = FixedMul e movelen (finecosine e deltafine)
         in w\<lparr>tmxmove := FixedMul e newlen (finecosine e linefine),
               tmymove := FixedMul e newlen (finesine e linefine)\<rparr>)"

definition PTR_SlideTraverse :: "env \<Rightarrow> intercept_t \<Rightarrow> world \<Rightarrow> bool \<times> world" where
  "PTR_SlideTraverse e in' w =
    (let li = d_line in'; l = lines e li; sm = mobjs w (slidemo w); op = P_LineOpening e li;
         isblocking = (False, if frac in' <s bestslidefrac w
                              then w\<lparr>bestslidefrac := frac in', bestslideline := Some li\<rparr>
                              else w)
     in
     if ML_TWOSIDED \<notin> line_flags l then
       (if P_PointOnLineSide e (mobj_x sm) (mobj_y sm) li \<noteq> 0 then (True, w) else isblocking)
     else if openrange op <s height sm then isblocking
     else if opentop op - mobj_z sm <s height sm then isblocking
     else if 24 * FRACUNIT e <s openbottom op - mobj_z sm then isblocking
     else (True, w))"

text \<open>
  Modelled from the spec: \<open>P_PathTraverse\<close> (p_maputl.c) is missing.  The ray traversal
  yields the intercepts of the segment, ordered by the fraction along the path, and the
  callback consumes them until it returns false.
\<close>

fun traverse_intercepts ::
  "(intercept_t \<Rightarrow> world \<Rightarrow> bool \<times> world) \<Rightarrow> intercept_t list \<Rightarrow> world \<Rightarrow> world" where
  "traverse_intercepts trav [] w = w"
| "traverse_intercepts trav (i # is) w =
     (case trav i w of (ok, w') \<Rightarrow> if ok then traverse_intercepts trav is w' else w')"

definition P_PathTraverse_slide ::
  "env \<Rightarrow> fixed_t \<Rightarrow> fixed_t \<Rightarrow> fixed_t \<Rightarrow> fixed_t \<Rightarrow> world \<Rightarrow> world" where
  \<comment> \<open>\<open>P_PathTraverse(x1, y1, x2, y2, PT_ADDLINES, PTR_SlideTraverse)\<close>\<close>
  "P_PathTraverse_slide e x1 y1 x2 y2 w =
     traverse_intercepts (PTR_SlideTraverse e) (P_PathTraverse_lines e x1 y1 x2 y2) w"

definition stairstep :: "env \<Rightarrow> mobj_ref \<Rightarrow> world \<Rightarrow> world option" where
  \<comment> \<open>the label \<open>stairstep\<close>: "kill momentum if you can't move at all"\<close>
  "stairstep e mo w =
    (case P_TryMove e mo (mobj_x (mobjs w mo)) (mobj_y (mobjs w mo) + momy (mobjs w mo)) True w of
       None \<Rightarrow> None
     | Some (ok, w1) \<Rightarrow>
         if ok then Some w1
         else (case P_TryMove e mo (mobj_x (mobjs w1 mo) + momx (mobjs w1 mo)) (mobj_y (mobjs w1 mo)) True w1 of
                 None \<Rightarrow> None
               | Some (_, w2) \<Rightarrow> Some w2))"

definition trace_corners :: "env \<Rightarrow> mobj_ref \<Rightarrow> fixed_t \<Rightarrow> world \<Rightarrow> world" where
  \<comment> \<open>"trace along the three leading corners"\<close>
  "trace_corners e mo rad w =
    (let m = mobjs w mo; x = mobj_x m; y = mobj_y m;
         leadx = (if 0 <s momx m then x + rad else x - rad);
         trailx = (if 0 <s momx m then x - rad else x + rad);
         leady = (if 0 <s momy m then y + rad else y - rad);
         traily = (if 0 <s momy m then y - rad else y + rad);
         w1 = w\<lparr>bestslidefrac := FRACUNIT e + 1\<rparr>;
         w2 = P_PathTraverse_slide e leadx leady (leadx + momx m) (leady + momy m) w1;
         w3 = P_PathTraverse_slide e trailx leady (trailx + momx m) (leady + momy m) w2
     in P_PathTraverse_slide e leadx traily (leadx + momx m) (traily + momy m) w3)"

definition redirect :: "env \<Rightarrow> mobj_ref \<Rightarrow> world \<Rightarrow> world" where
  \<comment> \<open>"Now continue along the wall": from \<open>tmxmove = ...\<close> to the end of the loop body.
      \<open>bestslideline\<close> has been set by the trace that lowered \<open>bestslidefrac\<close>.\<close>
  "redirect e mo w =
    (let m = mobjs w mo;
         w1 = w\<lparr>tmxmove := FixedMul e (momx m) (bestslidefrac w),
                tmymove := FixedMul e (momy m) (bestslidefrac w)\<rparr>;
         w2 = (case bestslideline w1 of None \<Rightarrow> w1 | Some ld \<Rightarrow> P_HitSlideLine e ld w1);
         w3 = update_mobj mo (\<lambda>m. m\<lparr>momx := tmxmove w2, momy := tmymove w2\<rparr>) w2
     in case player (mobjs w3 mo) of
          None \<Rightarrow> w3
        | Some p \<Rightarrow>
            if player_mo (players w3 p) = mo then
              let pl = players w3 p;
                  pl1 = (if ABS (tmxmove w3) <s ABS (player_momx pl) then pl\<lparr>player_momx := tmxmove w3\<rparr> else pl);
                  pl2 = (if ABS (tmymove w3) <s ABS (player_momy pl1) then pl1\<lparr>player_momy := tmymove w3\<rparr> else pl1)
              in w3\<lparr>players := (players w3)(p := pl2)\<rparr>
            else w3)"

text \<open>
  The \<open>do ... while\<close> loop of \<open>P_SlideMove\<close>.  \<open>hitcount\<close> is the variable of that name at
  the top of the body.  The loop is taken as it stands, with no bound on its rounds built
  in: a run that never leaves the loop has the result \<open>None\<close>.  A run that ends yields a
  number and a world; the world is \<open>None\<close> when the process has ended in \<open>I_Error\<close>.  The
  number is not a variable of the source: it counts how often the body has been entered.
\<close>

partial_function (option) slide_loop ::
  "env \<Rightarrow> mobj_ref \<Rightarrow> fixed_t \<Rightarrow> cint \<Rightarrow> nat \<Rightarrow> world \<Rightarrow> (nat \<times> world option) option" where
  "slide_loop e mo rad hitcount n w =
    (if hitcount - 1 = 0 then Some (Suc n, stairstep e mo w)
     else
       let w1 = trace_corners e mo rad w in
       if bestslidefrac w1 = FRACUNIT e + 1 then Some (Suc n, stairstep e mo w1)
       else
         let w2 = w1\<lparr>bestslidefrac := bestslidefrac w1 - 0x0800\<rparr>;
             moved =
               (if 0 <s bestslidefrac w2
                then P_TryMove e mo
                       (mobj_x (mobjs w2 mo) + FixedMul e (momx (mobjs w2 mo)) (bestslidefrac w2))
                       (mobj_y (mobjs w2 mo) + FixedMul e (momy (mobjs w2 mo)) (bestslidefrac w2))
                       True w2
                else Some (True, w2))
         in case moved of
              None \<Rightarrow> Some (Suc n, None)
            | Some (ok, w3) \<Rightarrow>
               if \<not> ok then Some (Suc n, stairstep e mo w3)
               else
                 let f = FRACUNIT e - (bestslidefrac w3 + 0x0800);
                     w4 = w3\<lparr>bestslidefrac := (if FRACUNIT e <s f then FRACUNIT e else f)\<rparr>
                 in if \<not> FRACUNIT e <s f \<and> f \<le>s 0 then Some (Suc n, Some w4)
                    else
                      let w5 = redirect e mo w4 in
                      (case P_TryMove e mo (mobj_x (mobjs w5 mo) + tmxmove w5)
                                           (mobj_y (mobjs w5 mo) + tmymove w5) True w5 of
                         None \<Rightarrow> Some (Suc n, None)
                       | Some (done, w6) \<Rightarrow>
                           if done then Some (Suc n, Some w6)
                           else slide_loop e mo rad (hitcount - 1) (Suc n) w6))"

declare slide_loop.simps [code]

definition P_SlideMove :: "env \<Rightarrow> mobj_ref \<Rightarrow> world \<Rightarrow> (nat \<times> world option) option" where
  "P_SlideMove e mo w = slide_loop e mo (radius (mobjs w mo)) 3 0 (w\<lparr>slidemo := mo\<rparr>)"

section \<open>The membership nodes\<close>

text \<open>
  This part works on the nodes themselves.  A pointer to a node is an address, \<open>NULL\<close> is
  \<open>None\<close>, and \<open>node\<close> is the memory: the node found at an address.  A walk along a
  thread that never reaches \<open>NULL\<close> does not return; such a function has the result
  \<open>None\<close>, as has one in which the process ends in \<open>I_Error\<close>.
\<close>

record msecnode_t =
  m_sector :: sector_ref
  m_thing :: "mobj_ref option"
  m_tprev :: "nat option"
  m_tnext :: "nat option"
  m_sprev :: "nat option"
  m_snext :: "nat option"
  visited :: bool

text \<open>
  \<open>touching_thinglist\<close> is the field of that name of every sector.  \<open>brk\<close> and
  \<open>zone_limit\<close> stand for the zone allocator: the addresses below \<open>brk\<close> have been handed
  out.  \<open>sl_tmthing\<close>, \<open>sl_tmx\<close>, \<open>sl_tmy\<close>, \<open>sl_tmbbox\<close> and \<open>sl_validcount\<close> are the
  variables \<open>tmthing\<close>, \<open>tmx\<close>, \<open>tmy\<close>, \<open>tmbbox\<close> and \<open>validcount\<close> as
  \<open>P_CreateSecNodeList\<close> sees them: there \<open>tmthing\<close> may be \<open>NULL\<close>.
\<close>

record secnodes =
  node :: "nat \<Rightarrow> msecnode_t"
  brk :: nat
  zone_limit :: nat
  headsecnode :: "nat option"
  touching_thinglist :: "sector_ref \<Rightarrow> nat option"
  sector_list :: "nat option"
  sl_tmthing :: "mobj_ref option"
  sl_tmx :: fixed_t
  sl_tmy :: fixed_t
  sl_tmbbox :: bbox_t
  sl_validcount :: cint

definition poke :: "nat \<Rightarrow> (msecnode_t \<Rightarrow> msecnode_t) \<Rightarrow> secnodes \<Rightarrow> secnodes" where
  \<comment> \<open>a write through a \<open>msecnode_t *\<close>\<close>
  "poke a f s = s\<lparr>node := (node s)(a := f (node s a))\<rparr>"

definition Z_Malloc :: "secnodes \<Rightarrow> (nat \<times> secnodes) option" where
  \<comment> \<open>Modelled from the spec: the allocator (z_zone.c) is missing.  It is an acquire
      service that hands out storage not in use, and failing to allocate is fatal to the
      process.\<close>
  "Z_Malloc s = (if brk s < zone_limit s then Some (brk s, s\<lparr>brk := Suc (brk s)\<rparr>) else None)"

definition P_FreeSecNodeList :: "secnodes \<Rightarrow> secnodes" where
  "P_FreeSecNodeList s = s\<lparr>headsecnode := None\<rparr>"

definition P_GetSecnode :: "secnodes \<Rightarrow> (nat \<times> secnodes) option" where
  "P_GetSecnode s =
    (case headsecnode s of
       Some a \<Rightarrow> Some (a, s\<lparr>headsecnode := m_snext (node s a)\<rparr>)
     | None \<Rightarrow> Z_Malloc s)"

definition P_PutSecnode :: "nat \<Rightarrow> secnodes \<Rightarrow> secnodes" where
  "P_PutSecnode a s = (poke a (\<lambda>n. n\<lparr>m_snext := headsecnode s\<rparr>) s)\<lparr>headsecnode := Some a\<rparr>"

partial_function (option) find_secnode ::
  "(nat \<Rightarrow> msecnode_t) \<Rightarrow> sector_ref \<Rightarrow> nat option \<Rightarrow> nat option option" where
  \<comment> \<open>the \<open>while (node)\<close> loop of \<open>P_AddSecnode\<close>: the node found for the sector, if any\<close>
  "find_secnode h sec p =
    (case p of
       None \<Rightarrow> Some None
     | Some a \<Rightarrow> if m_sector (h a) = sec then Some (Some a) else find_secnode h sec (m_tnext (h a)))"

definition P_AddSecnode ::
  "sector_ref \<Rightarrow> mobj_ref option \<Rightarrow> nat option \<Rightarrow> secnodes \<Rightarrow> (nat option \<times> secnodes) option" where
  "P_AddSecnode sec thing nextnode s =
    (case find_secnode (node s) sec nextnode of
       None \<Rightarrow> None
     | Some (Some a) \<Rightarrow> Some (nextnode, poke a (\<lambda>n. n\<lparr>m_thing := thing\<rparr>) s)
     | Some None \<Rightarrow>
        (case P_GetSecnode s of
           None \<Rightarrow> None
         | Some (a, s1) \<Rightarrow>
            let s2 = poke a (\<lambda>n. n\<lparr>m_sector := sec, m_thing := thing,
                                   m_tprev := None, m_tnext := nextnode\<rparr>) s1;
                s3 = (case nextnode of None \<Rightarrow> s2
                      | Some nx \<Rightarrow> poke nx (\<lambda>n. n\<lparr>m_tprev := Some a\<rparr>) s2);
                s4 = poke a (\<lambda>n. n\<lparr>m_sprev := None, m_snext := touching_thinglist s3 sec\<rparr>) s3;
                s5 = (case touching_thinglist s4 sec of None \<Rightarrow> s4
                      | Some _ \<Rightarrow>
                          (case m_snext (node s4 a) of None \<Rightarrow> s4
                           | Some sn \<Rightarrow> poke sn (\<lambda>n. n\<lparr>m_sprev := Some a\<rparr>) s4))
            in Some (Some a, s5\<lparr>touching_thinglist := (touching_thinglist s5)(sec := Some a)\<rparr>)))"

definition P_DelSecnode :: "nat \<Rightarrow> secnodes \<Rightarrow> nat option \<times> secnodes" where
  "P_DelSecnode a s =
    (let tp = m_tprev (node s a); tn = m_tnext (node s a);
         s1 = (case tp of None \<Rightarrow> s | Some p \<Rightarrow> poke p (\<lambda>n. n\<lparr>m_tnext := tn\<rparr>) s);
         s2 = (case tn of None \<Rightarrow> s1 | Some q \<Rightarrow> poke q (\<lambda>n. n\<lparr>m_tprev := tp\<rparr>) s1);
         sp = m_sprev (node s2 a); sn = m_snext (node s2 a);
         s3 = (case sp of
                 Some p \<Rightarrow> poke p (\<lambda>n. n\<lparr>m_snext := sn\<rparr>) s2
               | None \<Rightarrow> s2\<lparr>touching_thinglist := (touching_thinglist s2)(m_sector (node s2 a) := sn)\<rparr>);
         s4 = (case sn of None \<Rightarrow> s3 | Some q \<Rightarrow> poke q (\<lambda>n. n\<lparr>m_sprev := sp\<rparr>) s3)
     in (tn, P_PutSecnode a s4))"

partial_function (option) P_DelSeclist :: "nat option \<Rightarrow> secnodes \<Rightarrow> secnodes option" where
  "P_DelSeclist p s =
    (case p of None \<Rightarrow> Some s
     | Some a \<Rightarrow> (case P_DelSecnode a s of (tn, s') \<Rightarrow> P_DelSeclist tn s'))"

definition PIT_GetSectors :: "env \<Rightarrow> line_ref \<Rightarrow> secnodes \<Rightarrow> secnodes option" where
  \<comment> \<open>always returns true; the result is the state\<close>
  "PIT_GetSectors e ld s =
    (let l = lines e ld; lb = line_bbox l; tb = sl_tmbbox s in
     if BOXRIGHT tb \<le>s BOXLEFT lb \<or> BOXRIGHT lb \<le>s BOXLEFT tb
        \<or> BOXTOP tb \<le>s BOXBOTTOM lb \<or> BOXTOP lb \<le>s BOXBOTTOM tb
     then Some s
     else if P_BoxOnLineSide e tb ld \<noteq> - 1 then Some s
     else
       case P_AddSecnode (frontsector l) (sl_tmthing s) (sector_list s) s of
         None \<Rightarrow> None
       | Some (p, s1) \<Rightarrow>
           let s2 = s1\<lparr>sector_list := p\<rparr> in
           (case backsector l of
              None \<Rightarrow> Some s2
            | Some b \<Rightarrow>
                if b \<noteq> frontsector l
                then (case P_AddSecnode b (sl_tmthing s2) (sector_list s2) s2 of
                        None \<Rightarrow> None
                      | Some (p', s3) \<Rightarrow> Some (s3\<lparr>sector_list := p'\<rparr>))
                else Some s2))"

fun get_sectors_lines :: "env \<Rightarrow> line_ref list \<Rightarrow> secnodes \<Rightarrow> secnodes option" where
  \<comment> \<open>\<open>P_BlockLinesIterator(bx, by, PIT_GetSectors)\<close> over the cells\<close>
  "get_sectors_lines e [] s = Some s"
| "get_sectors_lines e (ld # lds) s =
     (case PIT_GetSectors e ld s of None \<Rightarrow> None | Some s' \<Rightarrow> get_sectors_lines e lds s')"

partial_function (option) clear_m_things :: "nat option \<Rightarrow> secnodes \<Rightarrow> secnodes option" where
  \<comment> \<open>"First, clear out the existing m_thing fields."\<close>
  "clear_m_things p s =
    (case p of None \<Rightarrow> Some s
     | Some a \<Rightarrow> clear_m_things (m_tnext (node s a)) (poke a (\<lambda>n. n\<lparr>m_thing := None\<rparr>) s))"

partial_function (option) delete_unused :: "nat option \<Rightarrow> secnodes \<Rightarrow> secnodes option" where
  \<comment> \<open>"Now delete any nodes that won't be used. These are the ones where m_thing is still NULL."\<close>
  "delete_unused p s =
    (case p of None \<Rightarrow> Some s
     | Some a \<Rightarrow>
        if m_thing (node s a) = None
        then let s1 = (if Some a = sector_list s then s\<lparr>sector_list := m_tnext (node s a)\<rparr> else s)
             in (case P_DelSecnode a s1 of (tn, s2) \<Rightarrow> delete_unused tn s2)
        else delete_unused (m_tnext (node s a)) s)"

text \<open>The loops are run by their defining equations.\<close>

declare find_secnode.simps [code] P_DelSeclist.simps [code] clear_m_things.simps [code]
  delete_unused.simps [code]

definition P_CreateSecNodeList ::
  "env \<Rightarrow> (mobj_ref \<Rightarrow> mobj_t) \<Rightarrow> mobj_ref \<Rightarrow> fixed_t \<Rightarrow> fixed_t \<Rightarrow> secnodes \<Rightarrow> secnodes option" where
  \<comment> \<open>the second argument is the memory of the map objects, which is only read\<close>
  "P_CreateSecNodeList e mo thing x y s =
    (let saved_tmthing = sl_tmthing s; saved_tmx = sl_tmx s; saved_tmy = sl_tmy s;
         rad = pickupradius (info (mo thing))
     in
     case clear_m_things (sector_list s) s of
       None \<Rightarrow> None
     | Some s1 \<Rightarrow>
        let s2 = s1\<lparr>sl_tmthing := Some thing, sl_tmx := x, sl_tmy := y,
                    sl_tmbbox := box_around x y rad, sl_validcount := sl_validcount s1 + 1\<rparr>
        in
        case get_sectors_lines e (lines_in_cells e (line_cells e (sl_tmbbox s2))) s2 of
          None \<Rightarrow> None
        | Some s3 \<Rightarrow>
           (case P_AddSecnode (subsector_sector (mo thing)) (Some thing) (sector_list s3) s3 of
              None \<Rightarrow> None
            | Some (p, s4) \<Rightarrow>
               let s5 = s4\<lparr>sector_list := p\<rparr> in
               (case delete_unused (sector_list s5) s5 of
                  None \<Rightarrow> None
                | Some s6 \<Rightarrow>
                   let s7 = s6\<lparr>sl_tmthing := saved_tmthing, sl_tmx := saved_tmx, sl_tmy := saved_tmy\<rparr>
                   in Some (case sl_tmthing s7 of
                              None \<Rightarrow> s7
                            | Some t \<Rightarrow> s7\<lparr>sl_tmbbox := box_around (sl_tmx s7) (sl_tmy s7) (radius (mo t))\<rparr>))))"

section \<open>Notions used in the statements\<close>

text \<open>
  The definitions of this section and of the next are not functions of the source.  They
  name what the theorems talk about: where an object is, which calls a trace holds, and
  the conditions that the source tests.
\<close>

definition placement ::
  "mobj_t \<Rightarrow> (fixed_t \<times> fixed_t \<times> fixed_t) \<times> (fixed_t \<times> fixed_t \<times> fixed_t) \<times> sector_ref \<times> sector_ref list" where
  \<comment> \<open>the position of an object, its cached bounds and its links into the level\<close>
  "placement m =
     ((mobj_x m, mobj_y m, mobj_z m), (floorz m, ceilingz m, dropoffz m),
      subsector_sector m, touching_sectorlist m)"

fun crossings :: "call list \<Rightarrow> call list" where
  \<comment> \<open>the calls of \<open>P_CrossSpecialLine\<close> in a trace\<close>
  "crossings [] = []"
| "crossings (P_CrossSpecialLine ld side thing # cs) = P_CrossSpecialLine ld side thing # crossings cs"
| "crossings (c # cs) = crossings cs"

definition crossed :: "env \<Rightarrow> fixed_t \<Rightarrow> fixed_t \<Rightarrow> fixed_t \<Rightarrow> fixed_t \<Rightarrow> line_ref \<Rightarrow> bool" where
  \<comment> \<open>the test of the loop over \<open>spechit\<close> in \<open>P_TryMove\<close>: the old and the new position lie on different sides of the line, and the line carries a special\<close>
  "crossed e oldx oldy x y ld =
     (P_PointOnLineSide e oldx oldy ld \<noteq> P_PointOnLineSide e x y ld \<and> line_special (lines e ld) \<noteq> 0)"

definition fired ::
  "env \<Rightarrow> mobj_ref \<Rightarrow> fixed_t \<Rightarrow> fixed_t \<Rightarrow> fixed_t \<Rightarrow> fixed_t \<Rightarrow> line_ref list \<Rightarrow> call list" where
  \<comment> \<open>the calls that the loop issues for a list of lines, in the order of the list\<close>
  "fired e thing oldx oldy x y lds =
     map (\<lambda>ld. P_CrossSpecialLine ld (P_PointOnLineSide e oldx oldy ld) thing)
         (filter (crossed e oldx oldy x y) lds)"

definition stomp_searched :: "env \<Rightarrow> world \<Rightarrow> mobj_ref \<Rightarrow> fixed_t \<Rightarrow> fixed_t \<Rightarrow> mobj_ref \<Rightarrow> bool" where
  \<comment> \<open>the blockmap lists the occupant in one of the cells that \<open>P_TeleportMove\<close> searches: those from \<open>xl\<close> to \<open>xh\<close> and from \<open>yl\<close> to \<open>yh\<close>, the cells of the corners of the mover's box at the point, moved outwards by \<open>MAXRADIUS\<close>\<close>
  "stomp_searched e w thing x y occ =
    (let r = radius (mobjs w thing) in
     \<exists>bx\<in>{P_GetSafeBlockX e (x - r - bmaporgx e - MAXRADIUS e)
             .. P_GetSafeBlockX e (x + r - bmaporgx e + MAXRADIUS e)}.
     \<exists>by\<in>{P_GetSafeBlockY e (y - r - bmaporgy e - MAXRADIUS e)
             .. P_GetSafeBlockY e (y + r - bmaporgy e + MAXRADIUS e)}.
       occ \<in> set (blockthings e bx by))"

definition stomp_overlap :: "world \<Rightarrow> mobj_ref \<Rightarrow> fixed_t \<Rightarrow> fixed_t \<Rightarrow> mobj_ref \<Rightarrow> bool" where
  \<comment> \<open>the planar test of \<open>PIT_StompThing\<close>: the occupant is nearer to the point than the sum of the radii, on both axes\<close>
  "stomp_overlap w thing x y occ =
    (let blockdist = radius (mobjs w occ) + radius (mobjs w thing) in
     ABS (mobj_x (mobjs w occ) - x) <s blockdist \<and> ABS (mobj_y (mobjs w occ) - y) <s blockdist)"

definition stomp_exempt :: "env \<Rightarrow> world \<Rightarrow> mobj_ref \<Rightarrow> fixed_t \<Rightarrow> mobj_ref \<Rightarrow> bool" where
  \<comment> \<open>the vertical exemption of \<open>PIT_StompThing\<close>: the mover passes over or under the occupant\<close>
  "stomp_exempt e w thing z occ =
    (MF2_PASSMOBJ \<in> flags2 (mobjs w thing) \<and> \<not> infiniteheight e
     \<and> (mobj_z (mobjs w occ) + height (mobjs w occ) <s z
         \<or> z + height (mobjs w thing) <s mobj_z (mobjs w occ)))"


definition blast_distance :: "env \<Rightarrow> mobj_t \<Rightarrow> mobj_t \<Rightarrow> fixed_t" where
  \<comment> \<open>the planar distance of \<open>PIT_RadiusAttack\<close>: the greater of the distances on the axes, less the radius, in whole map units and not below 0\<close>
  "blast_distance e th spot =
     MAX_of 0 (asr (MAX_of (ABS (mobj_x th - mobj_x spot)) (ABS (mobj_y th - mobj_y spot)) - radius th)
                   (FRACBITS e))"

definition blast_flat :: "env \<Rightarrow> mobj_t \<Rightarrow> bool \<Rightarrow> bool" where
  \<comment> \<open>the blast ignores heights\<close>
  "blast_flat e th verticality = (\<not> verticality \<or> infiniteheight e \<or> mobj_type th = MT_BOSSBRAIN)"

definition blast_outside :: "mobj_t \<Rightarrow> mobj_t \<Rightarrow> bool" where
  \<comment> \<open>"check z height for blast damage": the bounds of the thing lie outside those of the blast\<close>
  "blast_outside th spot =
     ((mobj_z spot <s floorz th \<and> ceilingz spot <s mobj_z th)
      \<or> (ceilingz th <s mobj_z spot \<and> mobj_z th <s floorz spot))"

definition on_blast_plane :: "env \<Rightarrow> mobj_t \<Rightarrow> mobj_t \<Rightarrow> bool \<Rightarrow> bool" where
  \<comment> \<open>heights do not count, or the middle of the thing is at the height of the blast and its bounds are not outside\<close>
  "on_blast_plane e th spot verticality =
     (blast_flat e th verticality
      \<or> (mobj_z th + asr (height th) 1 = mobj_z spot \<and> \<not> blast_outside th spot))"

definition targetable :: "mobj_t \<Rightarrow> bool" where
  \<comment> \<open>shootable or a corpse, and none of the two bosses that blasts do not hurt\<close>
  "targetable th =
     ((MF_SHOOTABLE \<in> flags th \<or> MF_CORPSE \<in> flags th)
      \<and> mobj_type th \<noteq> MT_CYBORG \<and> mobj_type th \<noteq> MT_SPIDER)"

fun damage_dealt :: "mobj_ref \<Rightarrow> call list \<Rightarrow> cint list" where
  \<comment> \<open>the amounts of the \<open>P_DamageMobj\<close> calls of a trace that have the given target\<close>
  "damage_dealt t [] = []"
| "damage_dealt t (P_DamageMobj t' inflictor source amount adjust # cs) =
     (if t' = t then amount # damage_dealt t cs else damage_dealt t cs)"
| "damage_dealt t (c # cs) = damage_dealt t cs"

text \<open>
  The stairstep motion in the words of the specification: movement along Y alone is tried
  and, when it is refused, movement along X alone.  The result is the world afterwards,
  \<open>None\<close> when the process has ended.
\<close>

definition Y_then_X :: "env \<Rightarrow> mobj_ref \<Rightarrow> world \<Rightarrow> world option" where
  "Y_then_X e mo w =
    (case P_TryMove e mo (mobj_x (mobjs w mo)) (mobj_y (mobjs w mo) + momy (mobjs w mo)) True w of
       None \<Rightarrow> None
     | Some (moved, w1) \<Rightarrow>
         if moved then Some w1
         else map_option snd
                (P_TryMove e mo (mobj_x (mobjs w1 mo) + momx (mobjs w1 mo)) (mobj_y (mobjs w1 mo)) True w1))"

text \<open>
  One round of the loop of \<open>P_SlideMove\<close>, from the trace along the leading corners to the
  test at the bottom of the loop, for a round in which \<open>hitcount\<close> has not run out: the
  round ends the loop with a world (with none when the process has ended), or the
  redirected move is refused and the loop goes round again.
\<close>

datatype pass = Ended "world option" | Again world

definition slide_pass :: "env \<Rightarrow> mobj_ref \<Rightarrow> fixed_t \<Rightarrow> world \<Rightarrow> pass" where
  "slide_pass e mo rad w =
    (let w1 = trace_corners e mo rad w in
       if bestslidefrac w1 = FRACUNIT e + 1 then Ended (stairstep e mo w1)
       else
         let w2 = w1\<lparr>bestslidefrac := bestslidefrac w1 - 0x0800\<rparr>;
             moved =
               (if 0 <s bestslidefrac w2
                then P_TryMove e mo
                       (mobj_x (mobjs w2 mo) + FixedMul e (momx (mobjs w2 mo)) (bestslidefrac w2))
                       (mobj_y (mobjs w2 mo) + FixedMul e (momy (mobjs w2 mo)) (bestslidefrac w2))
                       True w2
                else Some (True, w2))
         in case moved of
              None \<Rightarrow> Ended None
            | Some (ok, w3) \<Rightarrow>
               if \<not> ok then Ended (stairstep e mo w3)
               else
                 let f = FRACUNIT e - (bestslidefrac w3 + 0x0800);
                     w4 = w3\<lparr>bestslidefrac := (if FRACUNIT e <s f then FRACUNIT e else f)\<rparr>
                 in if \<not> FRACUNIT e <s f \<and> f \<le>s 0 then Ended (Some w4)
                    else
                      let w5 = redirect e mo w4 in
                      (case P_TryMove e mo (mobj_x (mobjs w5 mo) + tmxmove w5)
                                           (mobj_y (mobjs w5 mo) + tmymove w5) True w5 of
                         None \<Rightarrow> Ended None
                       | Some (done, w6) \<Rightarrow> if done then Ended (Some w6) else Again w6))"

text \<open>
  The threads of membership nodes.  A thread is read off the memory by following one of the
  link fields from a head pointer: \<open>path nx h p as\<close> says that the walk from \<open>p\<close> along the
  field \<open>nx\<close> visits the nodes \<open>as\<close>, in this order, and then reaches \<open>NULL\<close>;
  \<open>linked pv h q as\<close> says that the back links \<open>pv\<close> of the same nodes lead back along the
  walk, the first one to \<open>q\<close>.  \<open>reachable\<close> is the plain notion: a node is met by the walk.
\<close>

fun path :: "(msecnode_t \<Rightarrow> nat option) \<Rightarrow> (nat \<Rightarrow> msecnode_t) \<Rightarrow> nat option \<Rightarrow> nat list \<Rightarrow> bool" where
  \<comment> \<open>the walk from \<open>p\<close> along \<open>nx\<close> visits \<open>as\<close> and ends in \<open>NULL\<close>\<close>
  "path nx h p [] = (p = None)"
| "path nx h p (a # as) = (p = Some a \<and> path nx h (nx (h a)) as)"

fun linked :: "(msecnode_t \<Rightarrow> nat option) \<Rightarrow> (nat \<Rightarrow> msecnode_t) \<Rightarrow> nat option \<Rightarrow> nat list \<Rightarrow> bool" where
  \<comment> \<open>the back link of every node of the walk is the node before it\<close>
  "linked pv h q [] = True"
| "linked pv h q (a # as) = (pv (h a) = q \<and> linked pv h (Some a) as)"

inductive reachable :: "(msecnode_t \<Rightarrow> nat option) \<Rightarrow> (nat \<Rightarrow> msecnode_t) \<Rightarrow> nat option \<Rightarrow> nat \<Rightarrow> bool"
  for nx h where
  here: "reachable nx h (Some a) a"
| further: "reachable nx h (nx (h a)) b \<Longrightarrow> reachable nx h (Some a) b"

text \<open>
  The sectors of the nodes of an object's thread, in the order of the thread: what the
  object is a member of.  The walk need not end; then there is no result.
\<close>

partial_function (option) touching_sectors :: "(nat \<Rightarrow> msecnode_t) \<Rightarrow> nat option \<Rightarrow> sector_ref list option" where
  "touching_sectors h p =
    (case p of
       None \<Rightarrow> Some []
     | Some a \<Rightarrow> Option.bind (touching_sectors h (m_tnext (h a))) (\<lambda>ss. Some (m_sector (h a) # ss)))"

declare touching_sectors.simps [code]

definition touched :: "env \<Rightarrow> bbox_t \<Rightarrow> line_ref \<Rightarrow> sector_ref list" where
  \<comment> \<open>the sectors that \<open>PIT_GetSectors\<close> asks for at a line: none when the line misses the box, else the front sector and a different back sector\<close>
  "touched e tb ld =
    (let l = lines e ld; lb = line_bbox l in
     if BOXRIGHT tb \<le>s BOXLEFT lb \<or> BOXRIGHT lb \<le>s BOXLEFT tb
        \<or> BOXTOP tb \<le>s BOXBOTTOM lb \<or> BOXTOP lb \<le>s BOXBOTTOM tb
     then []
     else if P_BoxOnLineSide e tb ld \<noteq> - 1 then []
     else frontsector l # (case backsector l of None \<Rightarrow> []
                           | Some b \<Rightarrow> if b \<noteq> frontsector l then [b] else []))"

definition wanted :: "env \<Rightarrow> (mobj_ref \<Rightarrow> mobj_t) \<Rightarrow> mobj_ref \<Rightarrow> fixed_t \<Rightarrow> fixed_t \<Rightarrow> sector_ref list" where
  \<comment> \<open>the sectors that one call of \<open>P_CreateSecNodeList\<close> asks for, in the order of its calls of \<open>P_AddSecnode\<close>: those of the lines in the cells of the box, then the sector of the subsector\<close>
  "wanted e mo thing x y =
    (let tb = box_around x y (pickupradius (info (mo thing))) in
     concat (map (touched e tb) (lines_in_cells e (line_cells e tb))) @ [subsector_sector (mo thing)])"

text \<open>
  What \<open>P_CreateSecNodeList\<close> expects of the memory when it starts: \<open>sector_list\<close> heads a
  thread that ends, with back links that fit (\<open>thread_ok\<close>); the free list ends as well,
  shares no node with the thread, and both lie in the storage handed out so far
  (\<open>pool_ok\<close>).
\<close>

definition thread_ok :: "secnodes \<Rightarrow> nat list \<Rightarrow> bool" where
  "thread_ok s as =
    (path m_tnext (node s) (sector_list s) as \<and> linked m_tprev (node s) None as \<and> distinct as)"

definition pool_ok :: "secnodes \<Rightarrow> nat list \<Rightarrow> nat list \<Rightarrow> bool" where
  "pool_ok s as fl =
    (path m_snext (node s) (headsecnode s) fl \<and> distinct fl
     \<and> (\<forall>a\<in>set as. a < brk s) \<and> (\<forall>f\<in>set fl. f < brk s \<and> f \<notin> set as))"

text \<open>
  Consistency of the two threads, as a property of the memory and of the heads of the
  objects' threads (\<open>touching_sectorlist\<close>, or \<open>sector_list\<close> for the object whose thread is
  being rebuilt): a node that names the object \<open>E\<close> and the sector \<open>R\<close> is met from the head
  of \<open>E\<close> exactly when it is met from \<open>touching_thinglist\<close> of \<open>R\<close>.
\<close>

definition consistent :: "secnodes \<Rightarrow> (mobj_ref \<Rightarrow> nat option) \<Rightarrow> bool" where
  "consistent s heads =
    (\<forall>a E R. m_thing (node s a) = Some E \<and> m_sector (node s a) = R \<longrightarrow>
       reachable m_tnext (node s) (heads E) a = reachable m_snext (node s) (touching_thinglist s R) a)"

text \<open>
  The shape of the memory in which the functions are called.  \<open>tth E\<close> are the nodes of
  the thread of the object \<open>E\<close> and \<open>sth R\<close> those of the thread of the sector \<open>R\<close>; \<open>fl\<close>
  is the free list.  Every thread ends and has fitting back links; a node on the thread of
  \<open>E\<close> names \<open>E\<close>, or no object while \<open>P_CreateSecNodeList\<close> has not confirmed it, and is on
  the thread of its sector; a node on the thread of \<open>R\<close> names \<open>R\<close> and is on the thread of
  some object; no node is on the threads of two objects; the nodes of the free list are on
  no thread; all of them lie in the storage handed out so far.
\<close>

definition tthread_ok ::
  "secnodes \<Rightarrow> (mobj_ref \<Rightarrow> nat option) \<Rightarrow> (mobj_ref \<Rightarrow> nat list) \<Rightarrow> (sector_ref \<Rightarrow> nat list) \<Rightarrow> mobj_ref \<Rightarrow> bool" where
  "tthread_ok s heads tth sth E =
    (path m_tnext (node s) (heads E) (tth E) \<and> linked m_tprev (node s) None (tth E) \<and> distinct (tth E)
     \<and> (\<forall>a\<in>set (tth E). (m_thing (node s a) = None \<or> m_thing (node s a) = Some E)
                           \<and> a \<in> set (sth (m_sector (node s a)))))"

definition sthread_ok ::
  "secnodes \<Rightarrow> (mobj_ref \<Rightarrow> nat list) \<Rightarrow> (sector_ref \<Rightarrow> nat list) \<Rightarrow> sector_ref \<Rightarrow> bool" where
  "sthread_ok s tth sth R =
    (path m_snext (node s) (touching_thinglist s R) (sth R) \<and> linked m_sprev (node s) None (sth R)
     \<and> distinct (sth R)
     \<and> (\<forall>b\<in>set (sth R). m_sector (node s b) = R \<and> (\<exists>E. b \<in> set (tth E))))"

definition free_ok :: "secnodes \<Rightarrow> (mobj_ref \<Rightarrow> nat list) \<Rightarrow> nat list \<Rightarrow> bool" where
  "free_ok s tth fl =
    (path m_snext (node s) (headsecnode s) fl \<and> distinct fl
     \<and> (\<forall>f\<in>set fl. f < brk s \<and> (\<forall>E. f \<notin> set (tth E)))
     \<and> (\<forall>E. \<forall>a\<in>set (tth E). a < brk s))"

definition threads_ok ::
  "secnodes \<Rightarrow> (mobj_ref \<Rightarrow> nat option) \<Rightarrow> (mobj_ref \<Rightarrow> nat list) \<Rightarrow> (sector_ref \<Rightarrow> nat list) \<Rightarrow> nat list \<Rightarrow> bool" where
  "threads_ok s heads tth sth fl =
    ((\<forall>E. tthread_ok s heads tth sth E) \<and> (\<forall>R. sthread_ok s tth sth R) \<and> free_ok s tth fl
     \<and> (\<forall>E E' a. a \<in> set (tth E) \<longrightarrow> a \<in> set (tth E') \<longrightarrow> E = E'))"

definition membership_ok :: "secnodes \<Rightarrow> (mobj_ref \<Rightarrow> nat option) \<Rightarrow> bool" where
  "membership_ok s heads = (\<exists>tth sth fl. threads_ok s heads tth sth fl)"


section \<open>Auxiliary notions of the proofs\<close>

definition same_body :: "mobj_t \<Rightarrow> mobj_t \<Rightarrow> bool" where
  \<comment> \<open>what a position check leaves of an object: all but its momentum, its \<open>nudge\<close> and the flag \<open>MF_SKULLFLY\<close>\<close>
  "same_body m m' =
     (placement m' = placement m \<and> radius m' = radius m \<and> height m' = height m
      \<and> flags2 m' = flags2 m \<and> info m' = info m \<and> player m' = player m
      \<and> flags m' - {MF_SKULLFLY} = flags m - {MF_SKULLFLY})"

definition check_frame :: "world \<Rightarrow> world \<Rightarrow> bool" where
  \<comment> \<open>what a position check leaves of the world\<close>
  "check_frame w w' =
     ((\<forall>r. same_body (mobjs w r) (mobjs w' r))
      \<and> (\<forall>p. player_mo (players w' p) = player_mo (players w p))
      \<and> tmthing w' = tmthing w \<and> tmx w' = tmx w \<and> tmy w' = tmy w \<and> tmunstuck w' = tmunstuck w
      \<and> crossings (calls w') = crossings (calls w))"

definition frame_opt :: "world \<Rightarrow> (bool \<times> world) option \<Rightarrow> bool" where
  \<comment> \<open>the same for a check that may end the process\<close>
  "frame_opt w r = (case r of None \<Rightarrow> True | Some (b, w') \<Rightarrow> check_frame w w')"

definition settled :: "env \<Rightarrow> mobj_ref \<Rightarrow> fixed_t \<Rightarrow> fixed_t \<Rightarrow> world \<Rightarrow> world" where
  \<comment> \<open>\<open>commit_move\<close> before the special lines are crossed\<close>
  "settled e thing x y w =
    (let w1 = relink (P_UnsetThingPosition e) thing w;
         oldx = mobj_x (mobjs w1 thing); oldy = mobj_y (mobjs w1 thing);
         w2 = update_mobj thing (\<lambda>m. m\<lparr>floorz := tmfloorz w1, ceilingz := tmceilingz w1,
                 dropoffz := tmdropoffz w1, mobj_x := x, mobj_y := y\<rparr>) w1;
         w3 = relink (P_SetThingPosition e) thing w2;
         dist = hypot_fixed e (asr (x - oldx) (FRACBITS e)) (asr (y - oldy) (FRACBITS e));
         w4 = (case player (mobjs w3 thing) of
                 None \<Rightarrow> w3
               | Some p \<Rightarrow>
                   if player_mo (players w3 p) = thing \<and> dist \<noteq> 0
                   then w3\<lparr>stat_distancetraveled := SafeAdd e (stat_distancetraveled w3) dist,
                           players := (players w3)(p := (players w3 p)
                              \<lparr>distancetraveled := distancetraveled (players w3 p) + dist\<rparr>)\<rparr>
                   else w3)
     in clip_feet e thing w4)"

definition scratch_only :: "world \<Rightarrow> world \<Rightarrow> bool" where
  \<comment> \<open>two worlds that differ in \<open>floatok\<close> and \<open>felldown\<close> at most\<close>
  "scratch_only w w' = (w' = w\<lparr>floatok := floatok w', felldown := felldown w'\<rparr>)"

definition stomps :: "env \<Rightarrow> world \<Rightarrow> mobj_ref \<Rightarrow> bool" where
  \<comment> \<open>\<open>PIT_StompThing\<close> gets past its first three tests\<close>
  "stomps e w occ =
     (occ \<noteq> tmthing w \<and> MF_SHOOTABLE \<in> flags (mobjs w occ)
      \<and> stomp_overlap w (tmthing w) (tmx w) (tmy w) occ)"


definition blast_eq :: "world \<Rightarrow> world \<Rightarrow> bool" where
  \<comment> \<open>what \<open>PIT_RadiusAttack\<close> leaves of the world\<close>
  "blast_eq w w' =
     (bombspot w' = bombspot w \<and> bombsource w' = bombsource w \<and> bombdamage w' = bombdamage w
      \<and> bombverticality w' = bombverticality w
      \<and> (\<forall>r. mobjs w' r = (mobjs w r)\<lparr>nudge := nudge (mobjs w' r)\<rparr>))"

text \<open>The steps of \<open>P_CreateSecNodeList\<close> and what its helpers do to the memory.\<close>

definition kept :: "secnodes \<Rightarrow> nat \<Rightarrow> bool" where
  \<comment> \<open>the node is confirmed: \<open>m_thing\<close> is not \<open>NULL\<close>\<close>
  "kept s a = (m_thing (node s a) \<noteq> None)"

definition sector_of :: "secnodes \<Rightarrow> nat \<Rightarrow> sector_ref" where
  \<comment> \<open>the sector a node names\<close>
  "sector_of s a = m_sector (node s a)"

definition cleared :: "nat list \<Rightarrow> secnodes \<Rightarrow> secnodes" where
  \<comment> \<open>the memory after the first loop of \<open>P_CreateSecNodeList\<close> over the nodes \<open>as\<close>\<close>
  "cleared as s = s\<lparr>node := (\<lambda>a. if a \<in> set as then (node s a)\<lparr>m_thing := None\<rparr> else node s a)\<rparr>"

definition prepared :: "(mobj_ref \<Rightarrow> mobj_t) \<Rightarrow> mobj_ref \<Rightarrow> fixed_t \<Rightarrow> fixed_t \<Rightarrow> secnodes \<Rightarrow> secnodes" where
  \<comment> \<open>the scratch variables as \<open>P_CreateSecNodeList\<close> sets them before the scan\<close>
  "prepared mo thing x y s =
     s\<lparr>sl_tmthing := Some thing, sl_tmx := x, sl_tmy := y,
       sl_tmbbox := box_around x y (pickupradius (info (mo thing))), sl_validcount := sl_validcount s + 1\<rparr>"

definition restored :: "(mobj_ref \<Rightarrow> mobj_t) \<Rightarrow> secnodes \<Rightarrow> secnodes \<Rightarrow> secnodes" where
  \<comment> \<open>the scratch variables as \<open>P_CreateSecNodeList\<close> restores them at its end\<close>
  "restored mo s s6 =
    (let s7 = s6\<lparr>sl_tmthing := sl_tmthing s, sl_tmx := sl_tmx s, sl_tmy := sl_tmy s\<rparr>
     in case sl_tmthing s7 of
          None \<Rightarrow> s7
        | Some t \<Rightarrow> s7\<lparr>sl_tmbbox := box_around (sl_tmx s7) (sl_tmy s7) (radius (mo t))\<rparr>)"

definition add_step :: "sector_ref \<Rightarrow> secnodes \<Rightarrow> secnodes option" where
  \<comment> \<open>\<open>sector_list = P_AddSecnode(s, tmthing, sector_list)\<close>\<close>
  "add_step R s =
    (case P_AddSecnode R (sl_tmthing s) (sector_list s) s of
       None \<Rightarrow> None
     | Some (p, s1) \<Rightarrow> Some (s1\<lparr>sector_list := p\<rparr>))"

fun add_all :: "sector_ref list \<Rightarrow> secnodes \<Rightarrow> secnodes option" where
  "add_all [] s = Some s"
| "add_all (R # Rs) s = (case add_step R s of None \<Rightarrow> None | Some s' \<Rightarrow> add_all Rs s')"

definition taken :: "nat \<Rightarrow> secnodes \<Rightarrow> secnodes \<Rightarrow> bool" where
  \<comment> \<open>\<open>P_GetSecnode\<close> has handed out the node: from the free list, or fresh from the zone\<close>
  "taken a s s' =
    (zone_limit s' = zone_limit s \<and>
     (headsecnode s = Some a \<and> headsecnode s' = m_snext (node s a) \<and> brk s' = brk s
      \<or> headsecnode s = None \<and> a = brk s \<and> headsecnode s' = None \<and> brk s' = Suc (brk s)))"

definition added :: "sector_ref \<Rightarrow> mobj_ref option \<Rightarrow> nat option \<Rightarrow> nat \<Rightarrow> secnodes \<Rightarrow> secnodes \<Rightarrow> bool" where
  \<comment> \<open>the new node at the head of both threads\<close>
  "added R th p a s s' =
    (touching_thinglist s' = (touching_thinglist s)(R := Some a) \<and> sector_list s' = sector_list s
     \<and> m_sector (node s' a) = R \<and> m_thing (node s' a) = th
     \<and> m_tnext (node s' a) = p \<and> m_snext (node s' a) = touching_thinglist s R
     \<and> (p \<noteq> Some a \<longrightarrow> m_tprev (node s' a) = None)
     \<and> (touching_thinglist s R \<noteq> Some a \<longrightarrow> m_sprev (node s' a) = None)
     \<and> (\<forall>x. x \<noteq> a \<longrightarrow>
           m_sector (node s' x) = m_sector (node s x) \<and> m_thing (node s' x) = m_thing (node s x)
         \<and> m_tnext (node s' x) = m_tnext (node s x) \<and> m_snext (node s' x) = m_snext (node s x)
         \<and> m_tprev (node s' x) = (if Some x = p then Some a else m_tprev (node s x))
         \<and> m_sprev (node s' x) = (if Some x = touching_thinglist s R then Some a else m_sprev (node s x))))"

definition removed :: "nat \<Rightarrow> secnodes \<Rightarrow> secnodes \<Rightarrow> bool" where
  \<comment> \<open>the node has left both threads and heads the free list\<close>
  "removed a s s' =
    (sector_list s' = sector_list s \<and> brk s' = brk s \<and> zone_limit s' = zone_limit s
     \<and> headsecnode s' = Some a \<and> m_snext (node s' a) = headsecnode s
     \<and> touching_thinglist s' =
         (if m_sprev (node s a) = None
          then (touching_thinglist s)(m_sector (node s a) := m_snext (node s a))
          else touching_thinglist s)
     \<and> (\<forall>x. m_sector (node s' x) = m_sector (node s x) \<and> m_thing (node s' x) = m_thing (node s x))
     \<and> (\<forall>x. x \<noteq> a \<longrightarrow>
           m_tnext (node s' x) = (if Some x = m_tprev (node s a) then m_tnext (node s a) else m_tnext (node s x))
         \<and> m_tprev (node s' x) = (if Some x = m_tnext (node s a) then m_tprev (node s a) else m_tprev (node s x))
         \<and> m_snext (node s' x) = (if Some x = m_sprev (node s a) then m_snext (node s a) else m_snext (node s x))
         \<and> m_sprev (node s' x) = (if Some x = m_snext (node s a) then m_sprev (node s a) else m_sprev (node s x))))"

definition confirmed :: "(nat \<Rightarrow> sector_ref) \<Rightarrow> (nat \<Rightarrow> bool) \<Rightarrow> nat list \<Rightarrow> sector_ref set \<Rightarrow> bool" where
  \<comment> \<open>after the calls of \<open>P_AddSecnode\<close> for the sectors \<open>W\<close>: the confirmed nodes are the first nodes of the thread for the sectors of \<open>W\<close>, and each of these sectors has one\<close>
  "confirmed sec kp as W =
    ((\<forall>a\<in>set as. kp a = (sec a \<in> W \<and> find (\<lambda>b. sec b = sec a) as = Some a))
     \<and> (\<forall>R\<in>W. find (\<lambda>b. sec b = R) as \<noteq> None))"

definition settled_thread :: "secnodes \<Rightarrow> nat list \<Rightarrow> sector_ref set \<Rightarrow> bool" where
  \<comment> \<open>the thread that a call of \<open>P_CreateSecNodeList\<close> leaves: one node for each sector of \<open>W\<close>\<close>
  "settled_thread s as W =
     (thread_ok s as \<and> distinct (map (sector_of s) as) \<and> sector_of s ` set as = W)"

section \<open>A small level for the examples\<close>

text \<open>
  The examples below run the functions on a level with the usual constants (16 fraction
  bits, a default friction of \<open>0xE800\<close>), an empty blockmap, and a single map object
  record from which the actors of each example are derived.
\<close>

definition base_env :: env where
  "base_env = \<lparr>FRACBITS = 16, MAXRADIUS = 0x200000, ORIG_FRICTION = 0xE800,
     ORIG_FRICTION_FACTOR = 2048, FRICTION_MASK = 0x100, TICRATE = 35, ANGLETOFINESHIFT = 19,
     ANG45 = 0x20000000, ANG90 = 0x40000000, ANG180 = 0x80000000,
     lines = (\<lambda>_. \<lparr>line_dx = 0, line_dy = 0, line_flags = {}, line_special = 0,
        line_bbox = \<lparr>BOXTOP = 0, BOXBOTTOM = 0, BOXLEFT = 0, BOXRIGHT = 0\<rparr>,
        slopetype = ST_HORIZONTAL, frontsector = 0, backsector = None\<rparr>),
     sectors = (\<lambda>_. \<lparr>floorheight = 0, ceilingheight = 0x800000, sector_special = 0,
        friction = 0xE800, movefactor = 2048, heightsec = None, terraintype = SOLID\<rparr>),
     R_PointInSubsector_sector = (\<lambda>_ _. 0), bmaporgx = 0, bmaporgy = 0,
     P_GetSafeBlockX = (\<lambda>_. 0), P_GetSafeBlockY = (\<lambda>_. 0),
     blockthings = (\<lambda>_ _. []), blocklines = (\<lambda>_ _. []),
     P_PointOnLineSide = (\<lambda>_ _ _. 0), P_BoxOnLineSide = (\<lambda>_ _. - 1),
     P_LineOpening = (\<lambda>_. \<lparr>opentop = 0x800000, openbottom = 0, openrange = 0x800000, lowfloor = 0\<rparr>),
     P_PathTraverse_lines = (\<lambda>_ _ _ _. []), P_CheckSight = (\<lambda>_ _. True),
     FixedMul = (\<lambda>a b. word_of_int ((sint a * sint b) div 65536)),
     P_ApproxDistance = (\<lambda>dx dy. ABS dx + ABS dy),
     R_PointToAngle2 = (\<lambda>_ _ _ _. 0), finesine = (\<lambda>_. 0), finecosine = (\<lambda>_. 0),
     hypot_fixed = (\<lambda>_ _. 0), SafeAdd = (\<lambda>a b. a + b), realloc_ok = (\<lambda>_. True),
     M_Random = (\<lambda>_. 0), M_RandomInt = (\<lambda>_ lo _. lo), M_RandomIntNoRepeat = (\<lambda>_ lo _ _. lo),
     P_UnsetThingPosition = (\<lambda>m. (subsector_sector m, [])),
     P_SetThingPosition = (\<lambda>m. (0, [0])),
     freeze = False, infiniteheight = False, infight = False, species_infighting = False,
     r_corpses_nudge = False, gamemap = 1, telefragonmap30 = False, viewplayer = 0\<rparr>"

definition base_mobj :: mobj_t where
  "base_mobj = \<lparr>mobj_x = 0, mobj_y = 0, mobj_z = 0, radius = 0x140000, height = 0x380000,
     momx = 0, momy = 0, momz = 0, flags = {MF_SOLID, MF_SHOOTABLE}, flags2 = {},
     floorz = 0, ceilingz = 0x800000, dropoffz = 0, mobj_type = MT_MISC 0,
     info = \<lparr>spawnstate = 0, info_damage = 0, pickupradius = 0x140000, projectilepassheight = 0\<rparr>,
     player = None, target = None, health = 100, nudge = 0, interpolate = 0,
     subsector_sector = 0, touching_sectorlist = [0]\<rparr>"

definition base_world :: world where
  "base_world = \<lparr>mobjs = (\<lambda>_. base_mobj),
     players = (\<lambda>_. \<lparr>player_mo = 0, player_momx = 0, player_momy = 0, distancetraveled = 0, shotshit = 0\<rparr>),
     calls = [], prndindex = 0, validcount = 0, stat_distancetraveled = 0, stat_shotshit = 0,
     tmthing = 0, tmx = 0, tmy = 0, tmz = 0, floatok = False, felldown = False,
     tmbbox = \<lparr>BOXTOP = 0, BOXBOTTOM = 0, BOXLEFT = 0, BOXRIGHT = 0\<rparr>,
     tmfloorz = 0, tmceilingz = 0, tmdropoffz = 0,
     ceilingline = None, blockline = None, floorline = None, tmunstuck = False,
     spechit = [], spechit_max = 0, telefrag = False,
     bestslidefrac = 0, bestslideline = None, slidemo = 0, tmxmove = 0, tmymove = 0,
     bombsource = None, bombspot = 0, bombdamage = 0, bombverticality = False\<rparr>"

text \<open>
  Two sectors with the friction bit set in their special: sector 1 has the default
  friction \<open>0xE800\<close>, sector 2 is icy (\<open>0xF000\<close>).  Both floors are at the height of the
  object.
\<close>

definition friction_env :: env where
  "friction_env = base_env\<lparr>sectors := (\<lambda>s. (sectors base_env s)\<lparr>sector_special := 0x100,
       friction := (if s = 2 then 0xF000 else 0xE800)\<rparr>)\<rparr>"

text \<open>
  A ledge: a two-sided vertical line at \<open>x = 10\<close>, from \<open>y = -64\<close> to \<open>y = 64\<close>, found in the
  cell of the origin, through which the floor rises to \<open>bottom\<close> under a ceiling at 128;
  the line carries \<open>special\<close>.  A point is on side 0 of it when its \<open>x\<close> is below 10.
\<close>

definition ledge_env :: "fixed_t \<Rightarrow> 16 word \<Rightarrow> env" where
  "ledge_env bottom special = base_env\<lparr>
     lines := (\<lambda>_. \<lparr>line_dx = 0, line_dy = 0x800000, line_flags = {ML_TWOSIDED},
        line_special = special,
        line_bbox = \<lparr>BOXTOP = 0x400000, BOXBOTTOM = - 0x400000, BOXLEFT = 0xA0000, BOXRIGHT = 0xA0000\<rparr>,
        slopetype = ST_VERTICAL, frontsector = 0, backsector = Some 1\<rparr>),
     blocklines := (\<lambda>bx by. if bx = 0 \<and> by = 0 then [1] else []),
     P_LineOpening := (\<lambda>_. \<lparr>opentop = 0x800000, openbottom = bottom,
        openrange = 0x800000 - bottom, lowfloor = 0\<rparr>),
     P_PointOnLineSide := (\<lambda>x y ld. if x <s 0xA0000 then 0 else 1)\<rparr>"

text \<open>The same world with object 1 as the player's own object, and with teleporting objects.\<close>

definition player_world :: world where
  "player_world = base_world\<lparr>mobjs := (\<lambda>r. if r = 1 then base_mobj\<lparr>player := Some 0\<rparr> else base_mobj),
     players := (\<lambda>_. \<lparr>player_mo = 1, player_momx = 0, player_momy = 0, distancetraveled = 0, shotshit = 0\<rparr>)\<rparr>"

definition teleporter_world :: world where
  "teleporter_world = base_world\<lparr>mobjs := (\<lambda>r. base_mobj\<lparr>flags := {MF_SOLID, MF_SHOOTABLE, MF_TELEPORT}\<rparr>)\<rparr>"

text \<open>
  A cell with the objects 1, 2 and 3.  For the teleport, object 1 is far away and is sent to
  the origin, where object 2 stands.  For the blast, object 1 is a rocket at the origin, 28
  units up; object 2 stands 60 units away, its middle at the height of the rocket, and
  object 3 stands 400 units away.
\<close>

definition crowd_env :: env where
  "crowd_env = base_env\<lparr>blockthings := (\<lambda>bx by. if bx = 0 \<and> by = 0 then [1, 2, 3] else [])\<rparr>"

definition telefrag_world :: world where
  "telefrag_world = base_world\<lparr>mobjs := (\<lambda>r. if r = 1 then base_mobj\<lparr>mobj_x := 0x4000000\<rparr>
       else if r = 3 then base_mobj\<lparr>mobj_x := 0x1900000\<rparr> else base_mobj)\<rparr>"

definition passing_world :: world where
  \<comment> \<open>the world of the teleport with objects that pass over and under others\<close>
  "passing_world = telefrag_world\<lparr>mobjs := (\<lambda>r. (mobjs telefrag_world r)\<lparr>flags2 := {MF2_PASSMOBJ}\<rparr>)\<rparr>"


text \<open>
  Two memories of membership nodes: one with no node at all, and one in which the thread at
  \<open>sector_list\<close> holds a single node, for sector 2, left from an earlier position.
\<close>

definition no_nodes :: secnodes where
  "no_nodes = \<lparr>node = (\<lambda>_. \<lparr>m_sector = 0, m_thing = None, m_tprev = None, m_tnext = None,
                               m_sprev = None, m_snext = None, visited = False\<rparr>),
     brk = 0, zone_limit = 4, headsecnode = None, touching_thinglist = (\<lambda>_. None),
     sector_list = None, sl_tmthing = None, sl_tmx = 0, sl_tmy = 0,
     sl_tmbbox = \<lparr>BOXTOP = 0, BOXBOTTOM = 0, BOXLEFT = 0, BOXRIGHT = 0\<rparr>, sl_validcount = 0\<rparr>"

definition stale_nodes :: secnodes where
  "stale_nodes = \<lparr>node = (\<lambda>_. \<lparr>m_sector = 2, m_thing = Some 5, m_tprev = None, m_tnext = None,
                               m_sprev = None, m_snext = None, visited = False\<rparr>),
     brk = 1, zone_limit = 4, headsecnode = None,
     touching_thinglist = (\<lambda>R. if R = 2 then Some 0 else None),
     sector_list = Some 0, sl_tmthing = None, sl_tmx = 0, sl_tmy = 0,
     sl_tmbbox = \<lparr>BOXTOP = 0, BOXBOTTOM = 0, BOXLEFT = 0, BOXRIGHT = 0\<rparr>, sl_validcount = 0\<rparr>"

text \<open>
  A level with a blockmap of cells of 128 units, the cell of a coordinate being its quotient
  by 128 units.  Object 1 is a rocket at \<open>x = 90\<close>; objects 2 and 4 have a radius of 64 units
  and stand at \<open>x = 128\<close> and at \<open>x = 256\<close>; object 3 stands at \<open>x = 1024\<close>.  Each object is
  listed in the cell of its centre.
\<close>

definition grid_env :: env where
  "grid_env = base_env\<lparr>
     P_GetSafeBlockX := (\<lambda>c. sint (asr c 23)), P_GetSafeBlockY := (\<lambda>c. sint (asr c 23)),
     blockthings := (\<lambda>bx by. if by \<noteq> 0 then [] else if bx = 0 then [1] else if bx = 1 then [2]
                               else if bx = 2 then [4] else if bx = 8 then [3] else [])\<rparr>"

definition grid_world :: world where
  "grid_world = base_world\<lparr>mobjs := (\<lambda>r.
       if r = 1 then base_mobj\<lparr>mobj_x := 0x5A0000, radius := 0xB0000, height := 0x80000,
                              flags := {MF_MISSILE}, mobj_type := MT_ROCKET\<rparr>
       else if r = 2 then base_mobj\<lparr>mobj_x := 0x800000, radius := 0x400000\<rparr>
       else if r = 4 then base_mobj\<lparr>mobj_x := 0x1000000, radius := 0x400000\<rparr>
       else base_mobj\<lparr>mobj_x := 0x4000000\<rparr>)\<rparr>"

text \<open>
  The ledge, 48 units high, with a ray traversal that meets its line at once, and an object
  that runs against it.
\<close>

definition walls_env :: env where
  "walls_env = (ledge_env 0x300000 0)\<lparr>P_PathTraverse_lines := (\<lambda>_ _ _ _. [\<lparr>frac = 0x800, d_line = 1\<rparr>])\<rparr>"

definition runner_world :: world where
  "runner_world = base_world\<lparr>mobjs := (\<lambda>_. base_mobj\<lparr>momx := 0x80000, momy := 0x40000\<rparr>)\<rparr>"

section \<open>Signed comparison and shifts\<close>

lemma not_sle_iff: "(\<not> a \<le>s b) = (b <s a)"
  by (simp add: word_sle_eq word_sless_alt not_le)

lemma not_sless_iff: "(\<not> a <s b) = (b \<le>s a)"
  by (simp add: word_sle_eq word_sless_alt not_less)

lemma sless_irrefl: "\<not> a <s a"
  by (simp add: word_sless_alt)






section \<open>Reading a result\<close>

lemma fst_SomeD: "map_option fst r = Some b \<Longrightarrow> r = Some (b, snd (the r))"
  by (cases r) auto

section \<open>Writes that leave the trace and the special lines alone\<close>

lemma update_mobj_calls [simp]: "calls (update_mobj t f w) = calls w"
  by (simp add: update_mobj_def)

lemma relink_calls [simp]: "calls (relink l t w) = calls w"
  by (simp add: relink_def)

lemma clip_feet_calls [simp]: "calls (clip_feet e t w) = calls w"
  by (simp add: clip_feet_def)

lemma update_mobj_spechit [simp]: "spechit (update_mobj t f w) = spechit w"
  by (simp add: update_mobj_def)

lemma relink_spechit [simp]: "spechit (relink l t w) = spechit w"
  by (simp add: relink_def)

lemma clip_feet_spechit [simp]: "spechit (clip_feet e t w) = spechit w"
  by (simp add: clip_feet_def)

section \<open>The cells of a search\<close>

lemma set_first_visits [simp]: "set (first_visits xs) = set xs"
  by (simp add: first_visits_def)

lemma set_cells_bx_by: "set (cells_bx_by xl xh yl yh) = {xl..xh} \<times> {yl..yh}"
  by (auto simp: cells_bx_by_def)


lemma things_in_cells_iff:
  "t \<in> set (things_in_cells e cs) = (\<exists>(bx, by)\<in>set cs. t \<in> set (blockthings e bx by))"
  by (auto simp: things_in_cells_def)

lemma stomp_searched_visited:
  "stomp_searched e w thing x y occ
     = (occ \<in> set (things_in_cells e (thing_cells e (box_around x y (radius (mobjs w thing))))))"
  by (auto simp: stomp_searched_def things_in_cells_iff thing_cells_def set_cells_bx_by box_around_def Let_def)


section \<open>Friction: the order of the thread matters\<close>

text \<open>
  C9.  \<open>P_GetFriction\<close> is to return the lowest friction among the touched friction
  sectors at the height of the object, whatever the order of the thread.  For an object
  touching sector 1 (friction \<open>0xE800\<close>, the default value) and sector 2 (icy,
  \<open>0xF000\<close>), the result is \<open>0xF000\<close> when sector 1 comes first and \<open>0xE800\<close> when sector 2
  comes first: the test \<open>friction == ORIG_FRICTION\<close> takes a sector with the default
  friction for no sector at all.
\<close>

theorem P_GetFriction_order_dependent:
  "fst (P_GetFriction friction_env (base_mobj\<lparr>touching_sectorlist := [1, 2]\<rparr>)) = 0xF000
   \<and> fst (P_GetFriction friction_env (base_mobj\<lparr>touching_sectorlist := [2, 1]\<rparr>)) = 0xE800"
  by (simp add: P_GetFriction_def friction_env_def base_env_def base_mobj_def word_sless_alt word_sle_eq)

section \<open>Slide move: the iteration cap\<close>

lemma stairstep_Y_then_X: "stairstep e mo w = Y_then_X e mo w"
  by (auto simp: stairstep_def Y_then_X_def split: option.splits)

lemma slide_loop_last:
  "hitcount - 1 = 0 \<Longrightarrow> slide_loop e mo rad hitcount n w = Some (Suc n, stairstep e mo w)"
  by (subst slide_loop.simps) simp

lemma slide_loop_pass:
  "hitcount - 1 \<noteq> 0 \<Longrightarrow>
   slide_loop e mo rad hitcount n w =
     (case slide_pass e mo rad w of
        Ended r \<Rightarrow> Some (Suc n, r)
      | Again w6 \<Rightarrow> slide_loop e mo rad (hitcount - 1) (Suc n) w6)"
  by (subst slide_loop.simps)
     (simp add: slide_pass_def Let_def split: option.split prod.split)

lemma slide_loop_three:
  "slide_loop e mo rad 3 0 w =
     Some (case slide_pass e mo rad w of
             Ended r \<Rightarrow> (1, r)
           | Again w1 \<Rightarrow>
               (case slide_pass e mo rad w1 of
                  Ended r \<Rightarrow> (2, r)
                | Again w2 \<Rightarrow> (3, Y_then_X e mo w2)))"
proof -
  have s3: "slide_loop e mo rad 3 n w' =
     (case slide_pass e mo rad w' of
        Ended r \<Rightarrow> Some (Suc n, r)
      | Again w6 \<Rightarrow> slide_loop e mo rad 2 (Suc n) w6)" for n w'
    using slide_loop_pass [of 3 e mo rad n w'] by (simp cong: pass.case_cong)
  have s2: "slide_loop e mo rad 2 n w' =
     (case slide_pass e mo rad w' of
        Ended r \<Rightarrow> Some (Suc n, r)
      | Again w6 \<Rightarrow> slide_loop e mo rad 1 (Suc n) w6)" for n w'
    using slide_loop_pass [of 2 e mo rad n w'] by (simp cong: pass.case_cong)
  have s1: "slide_loop e mo rad 1 n w' = Some (Suc n, Y_then_X e mo w')" for n w'
    using slide_loop_last [of 1 e mo rad n w'] by (simp add: stairstep_Y_then_X)
  show ?thesis
    by (simp add: s3 s2 s1 numeral_3_eq_3 numeral_2_eq_2 split: pass.split)
qed

text \<open>
  C6.  Every call of \<open>P_SlideMove\<close> comes to an end: it leaves its loop, having entered the
  body at least once and at most three times.  The body is entered for the third time only
  after two rounds in which the redirected move was refused, and then nothing but the
  stairstep motion is done, from the world that the second round has left: movement along
  Y alone and, when that is refused, movement along X alone.
\<close>

theorem P_SlideMove_iterations:
  "\<exists>n r. P_SlideMove e mo w = Some (n, r) \<and> 1 \<le> n \<and> n \<le> 3
     \<and> (n = 3 \<longrightarrow>
          (\<exists>w1 w2. slide_pass e mo (radius (mobjs w mo)) (w\<lparr>slidemo := mo\<rparr>) = Again w1
                  \<and> slide_pass e mo (radius (mobjs w mo)) w1 = Again w2
                  \<and> r = Y_then_X e mo w2))"
proof (cases "slide_pass e mo (radius (mobjs w mo)) (w\<lparr>slidemo := mo\<rparr>)")
  case (Ended r)
  then have "P_SlideMove e mo w = Some (1, r)"
    by (simp add: P_SlideMove_def slide_loop_three)
  then show ?thesis by simp
next
  case first: (Again w1)
  show ?thesis
  proof (cases "slide_pass e mo (radius (mobjs w mo)) w1")
    case (Ended r)
    then have "P_SlideMove e mo w = Some (2, r)"
      using first by (simp add: P_SlideMove_def slide_loop_three)
    then show ?thesis by simp
  next
    case (Again w2)
    then have "P_SlideMove e mo w = Some (3, Y_then_X e mo w2)"
      using first by (simp add: P_SlideMove_def slide_loop_three)
    then show ?thesis using first Again by simp
  qed
qed

text \<open>
  The theorem at work: an object runs against a ledge that twice refuses the redirected
  move; the third round is the stairstep motion.
\<close>

theorem P_SlideMove_iterations_witness:
  "map_option fst (P_SlideMove walls_env 1 runner_world) = Some 3
   \<and> (\<exists>w'. map_option snd (P_SlideMove walls_env 1 runner_world) = Some (Y_then_X walls_env 1 w'))"
proof -
  have three: "map_option fst (P_SlideMove walls_env 1 runner_world) = Some 3"
    by code_simp
  obtain n r where "P_SlideMove walls_env 1 runner_world = Some (n, r)"
    and "n = 3 \<longrightarrow> (\<exists>w1 w2. slide_pass walls_env 1 (radius (mobjs runner_world 1)) (runner_world\<lparr>slidemo := 1\<rparr>) = Again w1
                  \<and> slide_pass walls_env 1 (radius (mobjs runner_world 1)) w1 = Again w2
                  \<and> r = Y_then_X walls_env 1 w2)"
    using P_SlideMove_iterations [of walls_env 1 runner_world] by blast
  then show ?thesis using three by auto
qed

section \<open>Teleport move: telefrag\<close>

lemma only_calls_same:
  assumes "w1 = w\<lparr>calls := cs\<rparr>"
  shows "telefrag w1 = telefrag w" and "mobjs w1 = mobjs w" and "tmthing w1 = tmthing w"
    and "tmz w1 = tmz w"
  using assms by simp_all

lemma PIT_StompThing_only_calls:
  "snd (PIT_StompThing e t w) = w\<lparr>calls := calls (snd (PIT_StompThing e t w))\<rparr>"
  by (simp add: PIT_StompThing_def Let_def issue_def)

lemma PIT_StompThing_calls_mono:
  "set (calls w) \<subseteq> set (calls (snd (PIT_StompThing e t w)))"
  by (auto simp: PIT_StompThing_def Let_def issue_def)

lemma iterate_stomp_only_calls:
  "snd (iterate_things (PIT_StompThing e) ts w) = w\<lparr>calls := calls (snd (iterate_things (PIT_StompThing e) ts w))\<rparr>"
proof (induction ts arbitrary: w)
  case Nil
  show ?case by simp
next
  case (Cons t ts)
  obtain ok w1 where step: "PIT_StompThing e t w = (ok, w1)"
    by (cases "PIT_StompThing e t w")
  have w1: "w1 = w\<lparr>calls := calls w1\<rparr>"
    using PIT_StompThing_only_calls [of e t w] step by simp
  show ?case
  proof (cases ok)
    case False
    with step w1 show ?thesis by simp
  next
    case True
    have "snd (iterate_things (PIT_StompThing e) ts w1)
            = w1\<lparr>calls := calls (snd (iterate_things (PIT_StompThing e) ts w1))\<rparr>"
      by (rule Cons.IH)
    also have "\<dots> = w\<lparr>calls := calls (snd (iterate_things (PIT_StompThing e) ts w1))\<rparr>"
      by (subst w1) simp
    finally show ?thesis
      using step True by simp
  qed
qed

lemma iterate_stomp_calls_mono:
  "set (calls w) \<subseteq> set (calls (snd (iterate_things (PIT_StompThing e) ts w)))"
proof (induction ts arbitrary: w)
  case Nil
  show ?case by simp
next
  case (Cons t ts)
  obtain ok w1 where step: "PIT_StompThing e t w = (ok, w1)"
    by (cases "PIT_StompThing e t w")
  have "set (calls w) \<subseteq> set (calls w1)"
    using PIT_StompThing_calls_mono [of w e t] step by simp
  moreover have "set (calls w1) \<subseteq> set (calls (snd (iterate_things (PIT_StompThing e) ts w1)))"
    by (rule Cons.IH)
  ultimately show ?case
    using step by (cases ok) auto
qed

lemma stomps_calls [simp]: "stomps e (w\<lparr>calls := cs\<rparr>) occ = stomps e w occ"
  by (simp add: stomps_def stomp_overlap_def)

lemma stomp_exempt_calls [simp]:
  "stomp_exempt e (w\<lparr>calls := cs\<rparr>) thing z occ = stomp_exempt e w thing z occ"
  by (simp add: stomp_exempt_def)

lemma PIT_StompThing_telefrag:
  assumes "telefrag w"
  shows "fst (PIT_StompThing e t w)"
  using assms by (simp add: PIT_StompThing_def Let_def)

lemma PIT_StompThing_hit:
  assumes "telefrag w" and "stomps e w occ" and "\<not> stomp_exempt e w (tmthing w) (tmz w) occ"
  shows "P_DamageMobj occ (Some (tmthing w)) (Some (tmthing w)) 10000 True
           \<in> set (calls (snd (PIT_StompThing e occ w)))"
  using assms
  by (auto simp: PIT_StompThing_def Let_def stomps_def stomp_overlap_def stomp_exempt_def
        issue_def not_sle_iff [symmetric])

lemma PIT_StompThing_refuse:
  assumes "\<not> telefrag w"
  shows "snd (PIT_StompThing e t w) = w"
    and "stomps e w t \<Longrightarrow> \<not> fst (PIT_StompThing e t w)"
  using assms
  by (auto simp: PIT_StompThing_def Let_def stomps_def stomp_overlap_def not_sle_iff [symmetric])

lemma iterate_stomp_telefrag:
  assumes "telefrag w"
  shows "fst (iterate_things (PIT_StompThing e) ts w)"
  using assms
proof (induction ts arbitrary: w)
  case Nil
  show ?case by simp
next
  case (Cons t ts)
  obtain ok w1 where step: "PIT_StompThing e t w = (ok, w1)"
    by (cases "PIT_StompThing e t w")
  have ok: ok
    using PIT_StompThing_telefrag [OF Cons.prems, of e t] step by simp
  have "w1 = w\<lparr>calls := calls w1\<rparr>"
    using PIT_StompThing_only_calls [of e t w] step by simp
  then have "telefrag w1 = telefrag w"
    by (rule only_calls_same)
  with Cons.prems have "fst (iterate_things (PIT_StompThing e) ts w1)"
    by (intro Cons.IH) simp
  with step ok show ?case by simp
qed

lemma iterate_stomp_hit:
  assumes "telefrag w" and "occ \<in> set ts" and "stomps e w occ"
    and "\<not> stomp_exempt e w (tmthing w) (tmz w) occ"
  shows "P_DamageMobj occ (Some (tmthing w)) (Some (tmthing w)) 10000 True
           \<in> set (calls (snd (iterate_things (PIT_StompThing e) ts w)))"
  using assms
proof (induction ts arbitrary: w)
  case Nil
  then show ?case by simp
next
  case (Cons t ts)
  obtain ok w1 where step: "PIT_StompThing e t w = (ok, w1)"
    by (cases "PIT_StompThing e t w")
  have ok: ok
    using PIT_StompThing_telefrag [OF Cons.prems(1), of e t] step by simp
  have w1: "w1 = w\<lparr>calls := calls w1\<rparr>"
    using PIT_StompThing_only_calls [of e t w] step by simp
  note same = only_calls_same [OF w1]
  show ?case
  proof (cases "t = occ")
    case True
    have "P_DamageMobj occ (Some (tmthing w)) (Some (tmthing w)) 10000 True \<in> set (calls w1)"
      using PIT_StompThing_hit [OF Cons.prems(1,3,4)] step True by simp
    then show ?thesis
      using iterate_stomp_calls_mono [of w1 e ts] step ok by auto
  next
    case False
    with Cons.prems have "occ \<in> set ts" by simp
    moreover have "stomps e w1 occ"
      by (subst w1) (simp add: Cons.prems)
    moreover have "\<not> stomp_exempt e w1 (tmthing w1) (tmz w1) occ"
      unfolding same by (subst w1) (simp add: Cons.prems)
    moreover have "telefrag w1"
      using same Cons.prems by simp
    ultimately have "P_DamageMobj occ (Some (tmthing w1)) (Some (tmthing w1)) 10000 True
           \<in> set (calls (snd (iterate_things (PIT_StompThing e) ts w1)))"
      by (intro Cons.IH)
    then show ?thesis
      using step ok same by simp
  qed
qed

lemma iterate_stomp_refuse:
  assumes "\<not> telefrag w"
  shows "snd (iterate_things (PIT_StompThing e) ts w) = w"
    and "occ \<in> set ts \<Longrightarrow> stomps e w occ \<Longrightarrow> \<not> fst (iterate_things (PIT_StompThing e) ts w)"
proof -
  show "snd (iterate_things (PIT_StompThing e) ts w) = w"
  proof (induction ts)
    case Nil
    show ?case by simp
  next
    case (Cons t ts)
    have "PIT_StompThing e t w = (fst (PIT_StompThing e t w), w)"
      using PIT_StompThing_refuse(1) [OF assms, of e t] by (metis prod.collapse)
    then show ?case
      using Cons.IH by (cases "fst (PIT_StompThing e t w)") (simp_all split: prod.splits)
  qed
  show "occ \<in> set ts \<Longrightarrow> stomps e w occ \<Longrightarrow> \<not> fst (iterate_things (PIT_StompThing e) ts w)"
  proof (induction ts)
    case Nil
    then show ?case by simp
  next
    case (Cons t ts)
    have step: "PIT_StompThing e t w = (fst (PIT_StompThing e t w), w)"
      using PIT_StompThing_refuse(1) [OF assms, of e t] by (metis prod.collapse)
    show ?case
    proof (cases "fst (PIT_StompThing e t w)")
      case False
      with step show ?thesis by (simp split: prod.splits)
    next
      case True
      with PIT_StompThing_refuse(2) [OF assms, of e t] Cons.prems have "occ \<in> set ts"
        by auto
      with Cons have "\<not> fst (iterate_things (PIT_StompThing e) ts w)" by simp
      with step True show ?thesis by (simp split: prod.splits)
    qed
  qed
qed

text \<open>
  C7.  Let an object be teleported onto a point where a shootable occupant overlaps it, and
  let the blockmap list the occupant in one of the cells that \<open>P_TeleportMove\<close> searches:
  the cells of the mover's box at the point, widened by \<open>MAXRADIUS\<close> on every side.  With
  \<open>boss\<close> set, and the occupant not passed over or under, \<open>P_TeleportMove\<close> returns true
  and has called \<open>P_DamageMobj\<close> on the occupant with the damage 10000.  When the mover is
  not a player, \<open>boss\<close> is not set and it is not the telefrag case of map 30,
  \<open>P_TeleportMove\<close> returns false, and neither an object nor the trace has changed.
\<close>

theorem P_TeleportMove_telefrag:
  assumes searched: "stomp_searched e w thing x y occ"
    and other: "occ \<noteq> thing"
    and shootable: "MF_SHOOTABLE \<in> flags (mobjs w occ)"
    and overlap: "stomp_overlap w thing x y occ"
  shows "(\<not> stomp_exempt e w thing z occ \<longrightarrow>
            fst (P_TeleportMove e thing x y z True w)
            \<and> P_DamageMobj occ (Some thing) (Some thing) 10000 True
                 \<in> set (calls (snd (P_TeleportMove e thing x y z True w))))
       \<and> (player (mobjs w thing) = None \<and> \<not> (gamemap e = 30 \<and> telefragonmap30 e) \<longrightarrow>
            \<not> fst (P_TeleportMove e thing x y z False w)
            \<and> mobjs (snd (P_TeleportMove e thing x y z False w)) = mobjs w
            \<and> calls (snd (P_TeleportMove e thing x y z False w)) = calls w)"
proof (intro conjI impI)
  define prep where "prep = (\<lambda>b. teleport_setup e thing x y z b w)"
  define ts where "ts = things_in_cells e (thing_cells e (box_around x y (radius (mobjs w thing))))"
  have occ: "occ \<in> set (things_in_cells e (thing_cells e (box_around x y (radius (mobjs w thing)))))"
    using searched by (simp only: stomp_searched_visited)
  have stomps: "stomps e (prep b) occ" for b
    using other shootable overlap
    by (simp add: stomps_def prep_def teleport_setup_def Let_def stomp_overlap_def)
  have unfold: "P_TeleportMove e thing x y z b w =
      (if fst (iterate_things (PIT_StompThing e) ts (prep b))
       then (True, teleport_commit e thing x y (snd (iterate_things (PIT_StompThing e) ts (prep b))))
       else (False, snd (iterate_things (PIT_StompThing e) ts (prep b))))" for b
    by (simp add: P_TeleportMove_def Let_def case_prod_beta prep_def ts_def teleport_setup_def)
  have commit_calls: "calls (teleport_commit e thing x y w2) = calls w2" for w2
    by (simp add: teleport_commit_def Let_def)
  {
    assume ne: "\<not> stomp_exempt e w thing z occ"
    have tf: "telefrag (prep True)" by (simp add: prep_def teleport_setup_def Let_def)
    have ex: "\<not> stomp_exempt e (prep True) (tmthing (prep True)) (tmz (prep True)) occ"
      using ne by (simp add: prep_def teleport_setup_def Let_def stomp_exempt_def)
    have ok: "fst (iterate_things (PIT_StompThing e) ts (prep True))"
      by (rule iterate_stomp_telefrag [OF tf])
    have hit: "P_DamageMobj occ (Some thing) (Some thing) 10000 True
           \<in> set (calls (snd (iterate_things (PIT_StompThing e) ts (prep True))))"
      using iterate_stomp_hit [OF tf _ stomps ex, of ts] occ
      by (simp add: ts_def prep_def teleport_setup_def Let_def)
    show "fst (P_TeleportMove e thing x y z True w)"
      using ok by (simp add: unfold)
    show "P_DamageMobj occ (Some thing) (Some thing) 10000 True
                 \<in> set (calls (snd (P_TeleportMove e thing x y z True w)))"
      using ok hit by (simp add: unfold commit_calls)
  }
  {
    assume ctx: "player (mobjs w thing) = None \<and> \<not> (gamemap e = 30 \<and> telefragonmap30 e)"
    then have tf: "\<not> telefrag (prep False)" by (simp add: prep_def teleport_setup_def Let_def)
    have same: "snd (iterate_things (PIT_StompThing e) ts (prep False)) = prep False"
      by (rule iterate_stomp_refuse(1) [OF tf])
    have no: "\<not> fst (iterate_things (PIT_StompThing e) ts (prep False))"
      using iterate_stomp_refuse(2) [OF tf _ stomps, of ts] occ by (simp add: ts_def)
    show "\<not> fst (P_TeleportMove e thing x y z False w)"
      using no by (simp add: unfold)
    show "mobjs (snd (P_TeleportMove e thing x y z False w)) = mobjs w"
      using no same by (simp add: unfold prep_def teleport_setup_def Let_def)
    show "calls (snd (P_TeleportMove e thing x y z False w)) = calls w"
      using no same by (simp add: unfold prep_def teleport_setup_def Let_def)
  }
qed

text \<open>
  An occupant of 64 units radius stands in the cell next to the cells searched and reaches
  over the point: it overlaps the mover, and the teleport succeeds with and without \<open>boss\<close>
  and does not touch it, against C7 as it was stated.  Nor is an occupant touched that the
  search finds when the mover, with \<open>MF2_PASSMOBJ\<close>, arrives 256 units above it.
\<close>

theorem P_TeleportMove_occupant_spared:
  "stomp_overlap grid_world 3 0x3C0000 0 2
   \<and> MF_SHOOTABLE \<in> flags (mobjs grid_world 2) \<and> player (mobjs grid_world 2) = None
   \<and> \<not> stomp_exempt grid_env grid_world 3 0 2
   \<and> fst (P_TeleportMove grid_env 3 0x3C0000 0 0 True grid_world)
   \<and> damage_dealt 2 (calls (snd (P_TeleportMove grid_env 3 0x3C0000 0 0 True grid_world))) = []
   \<and> player (mobjs grid_world 3) = None \<and> \<not> (gamemap grid_env = 30 \<and> telefragonmap30 grid_env)
   \<and> fst (P_TeleportMove grid_env 3 0x3C0000 0 0 False grid_world)
   \<and> stomp_overlap passing_world 1 0 0 2
   \<and> MF_SHOOTABLE \<in> flags (mobjs passing_world 2) \<and> player (mobjs passing_world 2) = None
   \<and> fst (P_TeleportMove crowd_env 1 0 0 0x1000000 True passing_world)
   \<and> damage_dealt 2 (calls (snd (P_TeleportMove crowd_env 1 0 0 0x1000000 True passing_world))) = []"
  by code_simp

text \<open>The theorem at work: object 1 is sent onto object 2, with and without \<open>boss\<close>.\<close>

theorem P_TeleportMove_telefrag_witness:
  "fst (P_TeleportMove crowd_env 1 0 0 0 True telefrag_world)
   \<and> P_DamageMobj 2 (Some 1) (Some 1) 10000 True
        \<in> set (calls (snd (P_TeleportMove crowd_env 1 0 0 0 True telefrag_world)))
   \<and> \<not> fst (P_TeleportMove crowd_env 1 0 0 0 False telefrag_world)
   \<and> mobjs (snd (P_TeleportMove crowd_env 1 0 0 0 False telefrag_world)) = mobjs telefrag_world
   \<and> calls (snd (P_TeleportMove crowd_env 1 0 0 0 False telefrag_world)) = calls telefrag_world"
proof -
  have "2 \<in> set (things_in_cells crowd_env (thing_cells crowd_env (box_around 0 0 (radius (mobjs telefrag_world 1)))))"
    by code_simp
  then have a: "stomp_searched crowd_env telefrag_world 1 0 0 2"
    by (simp only: stomp_searched_visited)
  have a': "(2::nat) \<noteq> 1" "MF_SHOOTABLE \<in> flags (mobjs telefrag_world 2)" "stomp_overlap telefrag_world 1 0 0 2"
    by code_simp+
  have b: "\<not> stomp_exempt crowd_env telefrag_world 1 0 2"
    "player (mobjs telefrag_world 1) = None \<and> \<not> (gamemap crowd_env = 30 \<and> telefragonmap30 crowd_env)"
    by code_simp+
  from P_TeleportMove_telefrag [OF a a', where z = 0] b show ?thesis
    by blast
qed

section \<open>Radius attack: falloff\<close>

lemma damage_dealt_append [simp]:
  "damage_dealt t (cs @ ds) = damage_dealt t cs @ damage_dealt t ds"
  by (induction t cs rule: damage_dealt.induct) simp_all

lemma blast_eq_refl [simp]: "blast_eq w w"
  by (simp add: blast_eq_def)

lemma blast_distance_nudge [simp]:
  "blast_distance e (th\<lparr>nudge := a\<rparr>) (sp\<lparr>nudge := b\<rparr>) = blast_distance e th sp"
  by (simp add: blast_distance_def)

lemma on_blast_plane_nudge [simp]:
  "on_blast_plane e (th\<lparr>nudge := a\<rparr>) (sp\<lparr>nudge := b\<rparr>) v = on_blast_plane e th sp v"
  by (simp add: on_blast_plane_def blast_flat_def blast_outside_def)

lemma targetable_nudge [simp]: "targetable (th\<lparr>nudge := a\<rparr>) = targetable th"
  by (simp add: targetable_def)
















section \<open>What a position check leaves alone\<close>

lemma crossings_append [simp]: "crossings (cs @ ds) = crossings cs @ crossings ds"
  by (induction cs rule: crossings.induct) simp_all

lemma same_body_refl [simp]: "same_body m m"
  by (simp add: same_body_def)

lemma same_body_trans: "same_body a b \<Longrightarrow> same_body b c \<Longrightarrow> same_body a c"
  by (simp add: same_body_def)

lemma check_frame_refl [simp]: "check_frame w w"
  by (simp add: check_frame_def)

lemma check_frame_trans: "check_frame a b \<Longrightarrow> check_frame b c \<Longrightarrow> check_frame a c"
  unfolding check_frame_def by (auto intro: same_body_trans)

lemma nudge_corpse_frame: "check_frame w (nudge_corpse e thing w)"
  by (simp add: nudge_corpse_def Let_def check_frame_def same_body_def placement_def update_mobj_def)

lemma count_shot_frame: "check_frame w (count_shot e w)"
  by (simp add: count_shot_def check_frame_def)

lemma frame_if:
  "check_frame w a \<Longrightarrow> check_frame w b \<Longrightarrow> check_frame w (if c then a else b)"
  by simp

lemma frame_snd_if:
  "check_frame w (snd a) \<Longrightarrow> check_frame w (snd b) \<Longrightarrow> check_frame w (snd (if c then a else b))"
  by simp

lemma frame_snd_pair: "check_frame w a \<Longrightarrow> check_frame w (snd (b, a))"
  by simp

lemma frame_update:
  assumes "\<And>m. same_body m (f m)"
  shows "check_frame w (update_mobj t f w)"
  using assms by (simp add: check_frame_def update_mobj_def)

lemma frame_issue:
  assumes "crossings [c] = []"
  shows "check_frame w (issue c w)"
  using assms by (simp add: check_frame_def issue_def)

lemma skull_slam_frame: "check_frame w (skull_slam e thing w)"
  by (simp add: skull_slam_def Let_def check_frame_def same_body_def placement_def
      update_mobj_def issue_def)

lemma frame_prnd: "check_frame w (w\<lparr>prndindex := n\<rparr>)"
  by (simp add: check_frame_def)

lemma missile_damage_frame: "check_frame w (missile_damage e thing w)"
proof -
  have a: "check_frame w (issue (P_DamageMobj thing i s amt b) (w\<lparr>prndindex := n\<rparr>))" for i s amt b n
    by (rule check_frame_trans [OF frame_prnd frame_issue]) simp
  have b: "check_frame w (count_shot e (issue (P_DamageMobj thing i s amt b) (w\<lparr>prndindex := n\<rparr>)))" for i s amt b n
    by (rule check_frame_trans [OF a count_shot_frame])
  have c: "check_frame w' (update_mobj t (\<lambda>m. m\<lparr>nudge := nudge m + 1\<rparr>) w')" for w' t
    by (rule frame_update) (simp add: same_body_def placement_def)
  show ?thesis
    unfolding missile_damage_def Let_def
    by (intro frame_if check_frame_trans [OF _ c] a b)
qed

lemma missile_hit_frame: "check_frame w (snd (missile_hit e thing fl tmflags type w))"
proof -
  have c: "check_frame w (update_mobj t (\<lambda>m. if g then m\<lparr>momx := a m, momy := b m\<rparr> else m\<lparr>momx := a' m, momy := b' m\<rparr>) w)"
    for t g a b a' b'
    by (rule frame_update) (simp add: same_body_def placement_def)
  show ?thesis
    unfolding missile_hit_def Let_def
    by (intro frame_snd_if frame_snd_pair check_frame_refl missile_damage_frame c)
qed

lemma frame_tmceilingz: "check_frame w (w\<lparr>tmceilingz := a\<rparr>)"
  by (simp add: check_frame_def)

lemma PIT_CheckThing_frame_aux:
  assumes ne: "t \<noteq> tmthing w"
  shows "check_frame (nudge_corpse e t w) (snd (PIT_CheckThing e t w))"
proof -
  have touch: "check_frame w' (issue (P_TouchSpecialThing a b c d) w')" for w' a b c d
    by (rule frame_issue) simp
  show ?thesis
    unfolding PIT_CheckThing_def Let_def if_not_P [OF ne]
    by (intro frame_snd_if frame_snd_pair frame_if check_frame_refl skull_slam_frame
          missile_hit_frame touch frame_tmceilingz)
qed

lemma PIT_CheckThing_frame: "check_frame w (snd (PIT_CheckThing e t w))"
proof (cases "t = tmthing w")
  case True
  then show ?thesis by (simp add: PIT_CheckThing_def)
next
  case False
  from nudge_corpse_frame PIT_CheckThing_frame_aux [OF False]
  show ?thesis by (rule check_frame_trans)
qed

lemma frame_opt_Some: "check_frame w w' \<Longrightarrow> frame_opt w (Some (b, w'))"
  by (simp add: frame_opt_def)

lemma frame_opt_if:
  "frame_opt w a \<Longrightarrow> frame_opt w b \<Longrightarrow> frame_opt w (if c then a else b)"
  by simp

lemma frame_optD: "frame_opt w r \<Longrightarrow> r = Some (b, w') \<Longrightarrow> check_frame w w'"
  by (simp add: frame_opt_def)

lemma add_spechit_frame: "add_spechit e ld w = Some w' \<Longrightarrow> check_frame w w'"
  by (auto simp: add_spechit_def Let_def check_frame_def split: if_splits option.splits)

lemma PIT_CheckLine_frame: "frame_opt w (PIT_CheckLine e ld w)"
proof -
  have a: "check_frame w (w\<lparr>blockline := x\<rparr>)" for x
    by (simp add: check_frame_def)
  have b: "check_frame w
     (let w1 = (if c1 then w\<lparr>tmceilingz := a1, ceilingline := a2, blockline := a3\<rparr> else w);
          w2 = (if c2 w1 then w1\<lparr>tmfloorz := b1, floorline := b2, blockline := b3\<rparr> else w1)
      in (if c3 w2 then w2\<lparr>tmdropoffz := d\<rparr> else w2))" for c1 a1 a2 a3 c2 b1 b2 b3 c3 d
    by (simp add: check_frame_def Let_def)
  have c: "frame_opt w (case add_spechit e ld w' of None \<Rightarrow> None | Some w4 \<Rightarrow> Some (True, w4))"
    if "check_frame w w'" for w'
    using that by (auto simp: frame_opt_def split: option.splits dest: add_spechit_frame intro: check_frame_trans)
  show ?thesis
    unfolding PIT_CheckLine_def
    apply (simp only: Let_def)
    apply (intro frame_opt_if frame_opt_Some check_frame_refl a c)
    apply (simp_all add: check_frame_def)
    done
qed

lemma iterate_lines_frame:
  "frame_opt w (iterate_lines (PIT_CheckLine e) lds w)"
proof (induction lds arbitrary: w)
  case Nil
  show ?case by (simp add: frame_opt_def)
next
  case (Cons ld lds)
  show ?case
  proof (cases "PIT_CheckLine e ld w")
    case None
    then show ?thesis by (simp add: frame_opt_def)
  next
    case (Some r)
    obtain ok w1 where r: "r = (ok, w1)" by (cases r)
    have f1: "check_frame w w1"
      using PIT_CheckLine_frame [of w e ld] Some r by (simp add: frame_opt_def)
    show ?thesis
    proof (cases ok)
      case False
      with Some r f1 show ?thesis by (simp add: frame_opt_def)
    next
      case True
      have "frame_opt w1 (iterate_lines (PIT_CheckLine e) lds w1)" by (rule Cons.IH)
      with f1 have "frame_opt w (iterate_lines (PIT_CheckLine e) lds w1)"
        by (auto simp: frame_opt_def split: option.splits intro: check_frame_trans)
      with Some r True show ?thesis by simp
    qed
  qed
qed

lemma iterate_things_frame:
  "check_frame w (snd (iterate_things (PIT_CheckThing e) ts w))"
proof (induction ts arbitrary: w)
  case Nil
  show ?case by simp
next
  case (Cons t ts)
  obtain ok w1 where step: "PIT_CheckThing e t w = (ok, w1)"
    by (cases "PIT_CheckThing e t w")
  have f1: "check_frame w w1"
    using PIT_CheckThing_frame [of w e t] step by simp
  show ?case
  proof (cases ok)
    case False
    with step f1 show ?thesis by simp
  next
    case True
    from f1 Cons.IH [of w1] have "check_frame w (snd (iterate_things (PIT_CheckThing e) ts w1))"
      by (rule check_frame_trans)
    with step True show ?thesis by simp
  qed
qed

lemma check_setup_frame:
  "mobjs (check_setup e thing x y w) = mobjs w"
  "players (check_setup e thing x y w) = players w"
  "calls (check_setup e thing x y w) = calls w"
  "tmunstuck (check_setup e thing x y w) = is_own_player w thing"
  "tmthing (check_setup e thing x y w) = thing"
  "tmx (check_setup e thing x y w) = x"
  "tmy (check_setup e thing x y w) = y"
  "spechit (check_setup e thing x y w) = []"
  by (simp_all add: check_setup_def Let_def)

lemma iterate_lines_frame_from:
  assumes "check_frame w0 w"
  shows "frame_opt w0 (iterate_lines (PIT_CheckLine e) lds w)"
  using assms iterate_lines_frame [of w e lds]
  by (auto simp: frame_opt_def split: option.splits intro: check_frame_trans)

lemma check_lines_frame: "frame_opt w (check_lines e thing x y w)"
proof -
  have "check_frame w (if c then w\<lparr>tmbbox := b\<rparr> else w)" for c b
    by (simp add: check_frame_def)
  then show ?thesis
    unfolding check_lines_def Let_def by (rule iterate_lines_frame_from)
qed

lemma P_CheckPosition_frame:
  assumes "P_CheckPosition e thing x y w = Some (ok, w')"
  shows "check_frame (check_setup e thing x y w) w'"
proof -
  define w1 where "w1 = check_setup e thing x y w"
  define r where "r = iterate_things (PIT_CheckThing e) (things_in_cells e (thing_cells e (tmbbox w1))) w1"
  have f2: "check_frame w1 (snd r)"
    unfolding r_def by (rule iterate_things_frame)
  have f3: "frame_opt (snd r) (check_lines e thing x y (snd r))"
    by (rule check_lines_frame)
  from assms have "w' = w1 \<or> w' = snd r \<or> check_lines e thing x y (snd r) = Some (ok, w')"
    by (auto simp: P_CheckPosition_def Let_def w1_def [symmetric] r_def [symmetric] case_prod_beta
          split: if_splits)
  then show ?thesis
    unfolding w1_def [symmetric]
    using f2 f3 by (auto simp: frame_opt_def intro: check_frame_trans)
qed

section \<open>The mover\<close>

lemma cross_specials_mobjs [simp]: "mobjs (cross_specials e t ox oy lds w) = mobjs w"
  by (induction lds arbitrary: w) (simp_all add: Let_def issue_def)

lemma cross_specials_calls:
  "crossings (calls (cross_specials e t ox oy lds w))
     = crossings (calls w) @ fired e t ox oy (mobj_x (mobjs w t)) (mobj_y (mobjs w t)) lds"
proof (induction lds arbitrary: w)
  case Nil
  show ?case by (simp add: fired_def)
next
  case (Cons ld lds)
  show ?case
    by (simp add: Let_def Cons.IH issue_def fired_def crossed_def)
qed

lemma settled_facts:
  "calls (settled e thing x y w) = calls w"
  "spechit (settled e thing x y w) = spechit w"
  "floorz (mobjs (settled e thing x y w) thing) = tmfloorz w"
  "ceilingz (mobjs (settled e thing x y w) thing) = tmceilingz w"
  "dropoffz (mobjs (settled e thing x y w) thing) = tmdropoffz w"
  "mobj_x (mobjs (settled e thing x y w) thing) = x"
  "mobj_y (mobjs (settled e thing x y w) thing) = y"
  "mobj_z (mobjs (settled e thing x y w) thing) = mobj_z (mobjs w thing)"
  "height (mobjs (settled e thing x y w) thing) = height (mobjs w thing)"
  "flags (mobjs (settled e thing x y w) thing) = flags (mobjs w thing)"
  by (simp_all add: settled_def Let_def relink_def update_mobj_def clip_feet_def split: option.splits)

lemma commit_move_settled:
  "commit_move e thing x y w =
    (if flags (mobjs w thing) \<inter> {MF_TELEPORT, MF_NOCLIP} = {} \<and> \<not> freeze e
     then cross_specials e thing (mobj_x (mobjs w thing)) (mobj_y (mobjs w thing))
            (rev (spechit w)) (settled e thing x y w)
     else settled e thing x y w)"
proof -
  have old: "mobj_x (mobjs (relink l thing w) thing) = mobj_x (mobjs w thing)"
            "mobj_y (mobjs (relink l thing w) thing) = mobj_y (mobjs w thing)" for l
    by (simp_all add: relink_def update_mobj_def)
  have "commit_move e thing x y w =
    (let w5 = settled e thing x y w in
     if flags (mobjs w5 thing) \<inter> {MF_TELEPORT, MF_NOCLIP} = {} \<and> \<not> freeze e
     then cross_specials e thing (mobj_x (mobjs w thing)) (mobj_y (mobjs w thing)) (rev (spechit w5)) w5
     else w5)"
    by (simp only: commit_move_def settled_def Let_def old)
  then show ?thesis
    by (simp only: Let_def settled_facts)
qed

lemma scratch_only_refl [simp]: "scratch_only w w"
  by (simp add: scratch_only_def)

lemma scratch_only_upd [simp]:
  "scratch_only w (w\<lparr>floatok := a\<rparr>)" "scratch_only w (w\<lparr>felldown := b\<rparr>)"
  "scratch_only w (w\<lparr>floatok := a, felldown := b\<rparr>)"
  by (simp_all add: scratch_only_def)

lemma scratch_only_same:
  assumes "scratch_only w w'"
  shows "mobjs w' = mobjs w" "calls w' = calls w" "spechit w' = spechit w"
    "tmfloorz w' = tmfloorz w" "tmceilingz w' = tmceilingz w" "tmdropoffz w' = tmdropoffz w"
    "players w' = players w" "too_tight e thing w' = too_tight e thing w"
    "may_escape e w' = may_escape e w"
proof -
  from assms have eq: "w' = w\<lparr>floatok := floatok w', felldown := felldown w'\<rparr>"
    by (simp add: scratch_only_def)
  show "mobjs w' = mobjs w" by (subst eq) simp
  show "calls w' = calls w" by (subst eq) simp
  show "spechit w' = spechit w" by (subst eq) simp
  show "tmfloorz w' = tmfloorz w" by (subst eq) simp
  show "tmceilingz w' = tmceilingz w" by (subst eq) simp
  show "tmdropoffz w' = tmdropoffz w" by (subst eq) simp
  show "players w' = players w" by (subst eq) simp
  show "too_tight e thing w' = too_tight e thing w"
    by (subst eq) (simp add: too_tight_def)
  show "may_escape e w' = may_escape e w"
    by (subst eq) (simp add: may_escape_def untouched_def split: option.splits)
qed

lemma scratch_only_trans: "scratch_only a b \<Longrightarrow> scratch_only b c \<Longrightarrow> scratch_only a c"
  unfolding scratch_only_def
  by (metis (no_types, lifting) world.surjective world.update_convs(12,13))

lemma P_TryMove_unfold:
  assumes "P_CheckPosition e thing x y (w\<lparr>felldown := False, floatok := False\<rparr>) = Some (ok1, w1)"
  shows "\<exists>w2 w3. scratch_only w1 w2 \<and> scratch_only w1 w3 \<and> P_TryMove e thing x y dropoff w =
    Some (if \<not> ok1 then (False, w1)
          else if MF_NOCLIP \<in> flags (mobjs w1 thing) \<or> freeze e then (True, commit_move e thing x y w1)
          else if too_tight e thing w1 then (may_escape e w1, w2)
          else if drop_refused e thing dropoff w1 then (False, w2)
          else if fall_refused e thing w1 then (False, w3)
          else (True, commit_move e thing x y w3))"
proof -
  define w2 where "w2 = (if tmceilingz w1 - tmfloorz w1 <s height (mobjs w1 thing)
                    then w1 else w1\<lparr>floatok := True\<rparr>)"
  define w3 where "w3 = set_felldown e thing dropoff w2"
  have s2: "scratch_only w1 w2"
    by (simp add: w2_def)
  have "scratch_only w2 w3"
    by (simp add: w3_def set_felldown_def Let_def)
  with s2 have s3: "scratch_only w1 w3"
    by (rule scratch_only_trans)
  have tt: "too_tight e thing w2 = too_tight e thing w1"
    and me: "may_escape e w2 = may_escape e w1"
    by (rule scratch_only_same [OF s2])+
  have dr: "drop_refused e thing dropoff w2 = drop_refused e thing dropoff w1"
    by (simp add: drop_refused_def scratch_only_same [OF s2])
  have fr: "fall_refused e thing w3 = fall_refused e thing w1"
    by (simp add: fall_refused_def scratch_only_same [OF s3])
  have "P_TryMove e thing x y dropoff w =
    Some (if \<not> ok1 then (False, w1)
          else if MF_NOCLIP \<in> flags (mobjs w1 thing) \<or> freeze e then (True, commit_move e thing x y w1)
          else if too_tight e thing w1 then (may_escape e w1, w2)
          else if drop_refused e thing dropoff w1 then (False, w2)
          else if fall_refused e thing w1 then (False, w3)
          else (True, commit_move e thing x y w3))"
    unfolding P_TryMove_def assms
    by (simp only: option.case prod.case Let_def w2_def [symmetric] w3_def [symmetric] tt me dr fr
          if_distrib [of Some] split: if_splits)
  with s2 s3 show ?thesis by blast
qed

lemma checked_facts:
  assumes "P_CheckPosition e thing x y (w\<lparr>felldown := False, floatok := False\<rparr>) = Some (ok1, w1)"
  shows "same_body (mobjs w r) (mobjs w1 r)"
    and "tmunstuck w1 = is_own_player w thing"
    and "crossings (calls w1) = crossings (calls w)"
proof -
  let ?w0 = "w\<lparr>felldown := False, floatok := False\<rparr>"
  have f: "check_frame (check_setup e thing x y ?w0) w1"
    using assms by (rule P_CheckPosition_frame)
  have own: "is_own_player ?w0 thing = is_own_player w thing"
    by (simp add: is_own_player_def split: option.splits)
  from f show "same_body (mobjs w r) (mobjs w1 r)"
    by (simp add: check_frame_def check_setup_frame)
  from f show "tmunstuck w1 = is_own_player w thing"
    by (simp add: check_frame_def check_setup_frame own)
  from f show "crossings (calls w1) = crossings (calls w)"
    by (simp add: check_frame_def check_setup_frame)
qed

lemma same_body_fields:
  assumes "same_body m m'"
  shows "placement m' = placement m" and "height m' = height m"
    and "mobj_z m' = mobj_z m" and "mobj_x m' = mobj_x m" and "mobj_y m' = mobj_y m"
    and "floorz m' = floorz m" and "dropoffz m' = dropoffz m"
    and "(MF_NOCLIP \<in> flags m') = (MF_NOCLIP \<in> flags m)"
    and "(MF_TELEPORT \<in> flags m') = (MF_TELEPORT \<in> flags m)"
  using assms by (auto simp: same_body_def placement_def)

lemma P_TryMove_checked:
  assumes "P_TryMove e thing x y dropoff w = Some r"
  obtains ok1 w1 where "P_CheckPosition e thing x y (w\<lparr>felldown := False, floatok := False\<rparr>) = Some (ok1, w1)"
  using assms by (cases "P_CheckPosition e thing x y (w\<lparr>felldown := False, floatok := False\<rparr>)")
    (auto simp: P_TryMove_def)

text \<open>
  C10.  When \<open>P_TryMove\<close> returns false, the moving object has the position, the
  cached \<open>floorz\<close>, \<open>ceilingz\<close> and \<open>dropoffz\<close>, the subsector and the membership
  thread that it had before the call.
\<close>

theorem P_TryMove_rejected_unchanged:
  assumes "P_TryMove e thing x y dropoff w = Some (False, w')"
  shows "placement (mobjs w' thing) = placement (mobjs w thing)"
proof -
  from assms obtain ok1 w1
    where check: "P_CheckPosition e thing x y (w\<lparr>felldown := False, floatok := False\<rparr>) = Some (ok1, w1)"
    by (rule P_TryMove_checked)
  from P_TryMove_unfold [OF check, of dropoff] obtain w2 w3
    where s2: "scratch_only w1 w2" and s3: "scratch_only w1 w3"
      and run: "P_TryMove e thing x y dropoff w =
        Some (if \<not> ok1 then (False, w1)
          else if MF_NOCLIP \<in> flags (mobjs w1 thing) \<or> freeze e then (True, commit_move e thing x y w1)
          else if too_tight e thing w1 then (may_escape e w1, w2)
          else if drop_refused e thing dropoff w1 then (False, w2)
          else if fall_refused e thing w1 then (False, w3)
          else (True, commit_move e thing x y w3))"
    by blast
  from run assms have "w' = w1 \<or> w' = w2 \<or> w' = w3"
    by (auto split: if_splits)
  then have "mobjs w' = mobjs w1"
    using scratch_only_same(1) [OF s2] scratch_only_same(1) [OF s3] by auto
  then show ?thesis
    using same_body_fields(1) [OF checked_facts(1) [OF check, of thing]] by simp
qed

text \<open>The theorem at work: a monster in front of a ledge of 32 units.\<close>

theorem P_TryMove_rejected_unchanged_witness:
  "map_option fst (P_TryMove (ledge_env 0x200000 0) 1 0x80000 0 False base_world) = Some False
   \<and> placement (mobjs (snd (the (P_TryMove (ledge_env 0x200000 0) 1 0x80000 0 False base_world))) 1)
       = placement (mobjs base_world 1)"
proof -
  have r: "map_option fst (P_TryMove (ledge_env 0x200000 0) 1 0x80000 0 False base_world) = Some False"
    by code_simp
  from P_TryMove_rejected_unchanged [OF fst_SomeD [OF r]] r show ?thesis
    by blast
qed




text \<open>
  C4, as amended.  For an object without \<open>MF_NOCLIP\<close> and \<open>MF_TELEPORT\<close>, \<open>freeze\<close> off,
  whose position check has succeeded: when the floor found is exactly 24 units above
  \<open>z\<close>, the thing fits, and neither the drop-off rule nor the rule for falling objects
  refuses, \<open>P_TryMove\<close> returns true and has moved the object onto that floor.  When the
  floor found is more than 24 units above \<open>z\<close>, the object is not moved, and
  \<open>P_TryMove\<close> returns what the escape rule for a stuck player says: false for every
  object that is not the player's own.
\<close>

theorem P_TryMove_step_height:
  assumes check: "P_CheckPosition e thing x y (w\<lparr>felldown := False, floatok := False\<rparr>) = Some (True, w1)"
    and "\<not> freeze e" and "MF_NOCLIP \<notin> flags (mobjs w thing)" and "MF_TELEPORT \<notin> flags (mobjs w thing)"
  shows "(tmfloorz w1 = mobj_z (mobjs w thing) + 24 * FRACUNIT e
          \<and> height (mobjs w thing) \<le>s tmceilingz w1 - tmfloorz w1
          \<and> height (mobjs w thing) \<le>s tmceilingz w1 - mobj_z (mobjs w thing)
          \<and> \<not> drop_refused e thing dropoff w1 \<and> \<not> fall_refused e thing w1
          \<longrightarrow> (\<exists>w'. P_TryMove e thing x y dropoff w = Some (True, w')
                  \<and> mobj_x (mobjs w' thing) = x \<and> mobj_y (mobjs w' thing) = y
                  \<and> floorz (mobjs w' thing) = mobj_z (mobjs w thing) + 24 * FRACUNIT e))
       \<and> (24 * FRACUNIT e <s tmfloorz w1 - mobj_z (mobjs w thing)
          \<longrightarrow> (\<exists>w'. P_TryMove e thing x y dropoff w = Some (may_escape e w1, w')
                  \<and> placement (mobjs w' thing) = placement (mobjs w thing))
              \<and> (\<not> is_own_player w thing \<longrightarrow> \<not> may_escape e w1))"
proof -
  note body = same_body_fields [OF checked_facts(1) [OF check, of thing]]
  from P_TryMove_unfold [OF check, of dropoff] obtain w2 w3
    where s2: "scratch_only w1 w2" and s3: "scratch_only w1 w3"
      and run: "P_TryMove e thing x y dropoff w =
        Some (if \<not> True then (False, w1)
          else if MF_NOCLIP \<in> flags (mobjs w1 thing) \<or> freeze e then (True, commit_move e thing x y w1)
          else if too_tight e thing w1 then (may_escape e w1, w2)
          else if drop_refused e thing dropoff w1 then (False, w2)
          else if fall_refused e thing w1 then (False, w3)
          else (True, commit_move e thing x y w3))"
    by blast
  have noclip: "\<not> (MF_NOCLIP \<in> flags (mobjs w1 thing) \<or> freeze e)"
    using assms(2,3) body by simp
  have tele: "MF_TELEPORT \<notin> flags (mobjs w1 thing)"
    using assms(4) body by simp
  show ?thesis
  proof (intro conjI impI)
    assume ok: "tmfloorz w1 = mobj_z (mobjs w thing) + 24 * FRACUNIT e
          \<and> height (mobjs w thing) \<le>s tmceilingz w1 - tmfloorz w1
          \<and> height (mobjs w thing) \<le>s tmceilingz w1 - mobj_z (mobjs w thing)
          \<and> \<not> drop_refused e thing dropoff w1 \<and> \<not> fall_refused e thing w1"
    then have step: "tmfloorz w1 - mobj_z (mobjs w thing) = 24 * FRACUNIT e"
      by simp
    from ok have a: "height (mobjs w thing) \<le>s tmceilingz w1 - tmfloorz w1"
      and b: "height (mobjs w thing) \<le>s tmceilingz w1 - mobj_z (mobjs w thing)"
      by blast+
    have fit1: "\<not> tmceilingz w1 - tmfloorz w1 <s height (mobjs w1 thing)"
      unfolding body not_sless_iff by (rule a)
    have fit2: "\<not> tmceilingz w1 - mobj_z (mobjs w1 thing) <s height (mobjs w1 thing)"
      unfolding body not_sless_iff by (rule b)
    have fit3: "\<not> 24 * FRACUNIT e <s tmfloorz w1 - mobj_z (mobjs w1 thing)"
      unfolding body step by (rule sless_irrefl)
    have "\<not> too_tight e thing w1"
      using fit1 fit2 fit3 by (simp add: too_tight_def Let_def)
    with run noclip ok have r: "P_TryMove e thing x y dropoff w = Some (True, commit_move e thing x y w3)"
      by simp
    have m: "mobjs (commit_move e thing x y w3) thing = mobjs (settled e thing x y w3) thing"
      unfolding commit_move_settled by simp
    show "\<exists>w'. P_TryMove e thing x y dropoff w = Some (True, w')
             \<and> mobj_x (mobjs w' thing) = x \<and> mobj_y (mobjs w' thing) = y
             \<and> floorz (mobjs w' thing) = mobj_z (mobjs w thing) + 24 * FRACUNIT e"
      using r ok by (simp add: m settled_facts scratch_only_same [OF s3])
  next
    assume high: "24 * FRACUNIT e <s tmfloorz w1 - mobj_z (mobjs w thing)"
    then have "too_tight e thing w1"
      using tele body by (simp add: too_tight_def Let_def)
    with run noclip have r: "P_TryMove e thing x y dropoff w = Some (may_escape e w1, w2)"
      by simp
    have "placement (mobjs w2 thing) = placement (mobjs w thing)"
      using scratch_only_same(1) [OF s2] body(1) by simp
    with r show "\<exists>w'. P_TryMove e thing x y dropoff w = Some (may_escape e w1, w')
                  \<and> placement (mobjs w' thing) = placement (mobjs w thing)"
      by blast
  next
    assume "\<not> is_own_player w thing"
    then show "\<not> may_escape e w1"
      using checked_facts(2) [OF check] by (simp add: may_escape_def)
  qed
qed

text \<open>
  The player, standing across the line of a ledge of 32 units, moves towards it:
  \<open>P_TryMove\<close> returns true, against C4 as it was stated.  A monster steps onto a ledge of
  24 units and fails at one of 32.
\<close>

theorem P_TryMove_high_step_accepted:
  "map_option fst (P_TryMove (ledge_env 0x200000 0) 1 0x80000 0 False player_world) = Some True
   \<and> MF_NOCLIP \<notin> flags (mobjs player_world 1) \<and> MF_TELEPORT \<notin> flags (mobjs player_world 1)
   \<and> \<not> freeze (ledge_env 0x200000 0)
   \<and> map_option (tmfloorz \<circ> snd)
        (P_CheckPosition (ledge_env 0x200000 0) 1 0x80000 0 (player_world\<lparr>felldown := False, floatok := False\<rparr>))
       = Some 0x200000
   \<and> 24 * FRACUNIT (ledge_env 0x200000 0) <s 0x200000 - mobj_z (mobjs player_world 1)"
  by code_simp

theorem P_TryMove_step_height_witness:
  "(\<exists>w'. P_TryMove (ledge_env 0x180000 0) 1 0x80000 0 False base_world = Some (True, w')
         \<and> mobj_x (mobjs w' 1) = 0x80000 \<and> mobj_y (mobjs w' 1) = 0
         \<and> floorz (mobjs w' 1) = 0x180000)
   \<and> (\<exists>w'. P_TryMove (ledge_env 0x200000 0) 1 0x80000 0 False base_world = Some (False, w')
         \<and> placement (mobjs w' 1) = placement (mobjs base_world 1))"
proof -
  let ?e = "ledge_env 0x180000 0" and ?f = "ledge_env 0x200000 0"
  have c1: "map_option fst (P_CheckPosition ?e 1 0x80000 0 (base_world\<lparr>felldown := False, floatok := False\<rparr>)) = Some True"
    and c2: "map_option fst (P_CheckPosition ?f 1 0x80000 0 (base_world\<lparr>felldown := False, floatok := False\<rparr>)) = Some True"
    by code_simp+
  have a: "\<not> freeze ?e" "MF_NOCLIP \<notin> flags (mobjs base_world 1)"
    "MF_TELEPORT \<notin> flags (mobjs base_world 1)" "\<not> freeze ?f" "\<not> is_own_player base_world 1"
    by code_simp+
  let ?w1 = "snd (the (P_CheckPosition ?e 1 0x80000 0 (base_world\<lparr>felldown := False, floatok := False\<rparr>)))"
  let ?v1 = "snd (the (P_CheckPosition ?f 1 0x80000 0 (base_world\<lparr>felldown := False, floatok := False\<rparr>)))"
  have b: "tmfloorz ?w1 = mobj_z (mobjs base_world 1) + 24 * FRACUNIT ?e
          \<and> height (mobjs base_world 1) \<le>s tmceilingz ?w1 - tmfloorz ?w1
          \<and> height (mobjs base_world 1) \<le>s tmceilingz ?w1 - mobj_z (mobjs base_world 1)
          \<and> \<not> drop_refused ?e 1 False ?w1 \<and> \<not> fall_refused ?e 1 ?w1"
    by code_simp
  have v: "mobj_z (mobjs base_world 1) + 24 * FRACUNIT ?e = 0x180000"
    by code_simp
  have h: "24 * FRACUNIT ?f <s tmfloorz ?v1 - mobj_z (mobjs base_world 1)"
    by code_simp
  from P_TryMove_step_height [OF fst_SomeD [OF c1] a(1,2,3), of False] b
  have "\<exists>w'. P_TryMove ?e 1 0x80000 0 False base_world = Some (True, w')
         \<and> mobj_x (mobjs w' 1) = 0x80000 \<and> mobj_y (mobjs w' 1) = 0
         \<and> floorz (mobjs w' 1) = mobj_z (mobjs base_world 1) + 24 * FRACUNIT ?e"
    by blast
  then have one: "\<exists>w'. P_TryMove ?e 1 0x80000 0 False base_world = Some (True, w')
         \<and> mobj_x (mobjs w' 1) = 0x80000 \<and> mobj_y (mobjs w' 1) = 0
         \<and> floorz (mobjs w' 1) = 0x180000"
    unfolding v .
  have esc: "\<not> may_escape ?f ?v1"
    using P_TryMove_step_height [OF fst_SomeD [OF c2] a(4,2,3), of False] h a(5) by blast
  from P_TryMove_step_height [OF fst_SomeD [OF c2] a(4,2,3), of False] h
  have "\<exists>w'. P_TryMove ?f 1 0x80000 0 False base_world = Some (may_escape ?f ?v1, w')
         \<and> placement (mobjs w' 1) = placement (mobjs base_world 1)"
    by blast
  with esc have two: "\<exists>w'. P_TryMove ?f 1 0x80000 0 False base_world = Some (False, w')
         \<and> placement (mobjs w' 1) = placement (mobjs base_world 1)"
    by simp
  from one two show ?thesis by blast
qed

text \<open>
  C3, as amended.  The calls of \<open>P_CrossSpecialLine\<close> that one \<open>P_TryMove\<close> issues: none
  unless the call returns true, has committed the move (the position check found room),
  and the object has no \<open>MF_TELEPORT\<close>; then one call for every entry of \<open>spechit\<close>
  whose line has the old and the new position on different sides, last entry first, and
  no other.  (With \<open>MF_NOCLIP\<close> or \<open>freeze\<close> the list is empty.)
\<close>

theorem P_TryMove_specials:
  assumes check: "P_CheckPosition e thing x y (w\<lparr>felldown := False, floatok := False\<rparr>) = Some (ok1, w1)"
    and move: "P_TryMove e thing x y dropoff w = Some (ok, w')"
  shows "crossings (calls w') = crossings (calls w) @
           (if ok \<and> \<not> too_tight e thing w1 \<and> MF_TELEPORT \<notin> flags (mobjs w thing)
            then fired e thing (mobj_x (mobjs w thing)) (mobj_y (mobjs w thing)) x y (rev (spechit w1))
            else [])"
proof -
  note body = same_body_fields [OF checked_facts(1) [OF check, of thing]]
  note cr = checked_facts(3) [OF check]
  from P_TryMove_unfold [OF check, of dropoff] obtain w2 w3
    where s2: "scratch_only w1 w2" and s3: "scratch_only w1 w3"
      and run: "P_TryMove e thing x y dropoff w =
        Some (if \<not> ok1 then (False, w1)
          else if MF_NOCLIP \<in> flags (mobjs w1 thing) \<or> freeze e then (True, commit_move e thing x y w1)
          else if too_tight e thing w1 then (may_escape e w1, w2)
          else if drop_refused e thing dropoff w1 then (False, w2)
          else if fall_refused e thing w1 then (False, w3)
          else (True, commit_move e thing x y w3))"
    by blast
  have commit: "crossings (calls (commit_move e thing x y v)) = crossings (calls v) @
      (if flags (mobjs v thing) \<inter> {MF_TELEPORT, MF_NOCLIP} = {} \<and> \<not> freeze e
       then fired e thing (mobj_x (mobjs v thing)) (mobj_y (mobjs v thing)) x y (rev (spechit v))
       else [])" for v
    unfolding commit_move_settled
    by (simp add: cross_specials_calls settled_facts)
  have empty: "spechit w1 = []" if "MF_NOCLIP \<in> flags (mobjs w1 thing) \<or> freeze e"
  proof -
    let ?w0 = "w\<lparr>felldown := False, floatok := False\<rparr>"
    have "MF_NOCLIP \<in> flags (mobjs (check_setup e thing x y ?w0) thing) \<or> freeze e"
      using that body by (simp add: check_setup_frame)
    with check have "w1 = check_setup e thing x y ?w0"
      by (simp add: P_CheckPosition_def Let_def)
    then show ?thesis by (simp add: check_setup_frame)
  qed
  consider (blocked) "\<not> ok1"
    | (noclip) "ok1" "MF_NOCLIP \<in> flags (mobjs w1 thing) \<or> freeze e"
    | (tight) "ok1" "\<not> (MF_NOCLIP \<in> flags (mobjs w1 thing) \<or> freeze e)" "too_tight e thing w1"
    | (refused) "ok1" "\<not> (MF_NOCLIP \<in> flags (mobjs w1 thing) \<or> freeze e)" "\<not> too_tight e thing w1"
        "drop_refused e thing dropoff w1 \<or> fall_refused e thing w1"
    | (moved) "ok1" "\<not> (MF_NOCLIP \<in> flags (mobjs w1 thing) \<or> freeze e)" "\<not> too_tight e thing w1"
        "\<not> drop_refused e thing dropoff w1" "\<not> fall_refused e thing w1"
    by blast
  then show ?thesis
  proof cases
    case blocked
    with run move have "\<not> ok" "w' = w1" by simp_all
    then show ?thesis using cr by simp
  next
    case noclip
    with run move have "w' = commit_move e thing x y w1" by simp
    then show ?thesis
      using cr empty [OF noclip(2)] by (simp add: commit fired_def)
  next
    case tight
    with run move have "w' = w2" by simp
    then show ?thesis
      using cr tight scratch_only_same(2) [OF s2] by simp
  next
    case refused
    with run move have "\<not> ok" "w' = w2 \<or> w' = w3" by (auto split: if_splits)
    then show ?thesis
      using cr scratch_only_same(2) [OF s2] scratch_only_same(2) [OF s3] by auto
  next
    case moved
    with run move have "ok" "w' = commit_move e thing x y w3" by simp_all
    then show ?thesis
      using cr moved body
      by (auto simp: commit scratch_only_same [OF s3])
  qed
qed

text \<open>
  An object with \<open>MF_TELEPORT\<close> crosses a special line: the move is accepted, the line is in
  the list and the sides differ, but nothing is triggered, against C3 as it was stated.
  The same move of an object without the flag triggers the line once.
\<close>

theorem P_TryMove_teleport_flag_no_trigger:
  "map_option fst (P_TryMove (ledge_env 0 7) 1 0x140000 0 False teleporter_world) = Some True
   \<and> map_option (spechit \<circ> snd)
        (P_CheckPosition (ledge_env 0 7) 1 0x140000 0 (teleporter_world\<lparr>felldown := False, floatok := False\<rparr>))
       = Some [1]
   \<and> P_PointOnLineSide (ledge_env 0 7) (mobj_x (mobjs teleporter_world 1)) (mobj_y (mobjs teleporter_world 1)) 1
       \<noteq> P_PointOnLineSide (ledge_env 0 7) 0x140000 0 1
   \<and> map_option (calls \<circ> snd) (P_TryMove (ledge_env 0 7) 1 0x140000 0 False teleporter_world) = Some []"
  by code_simp

theorem P_TryMove_specials_witness:
  "crossings (calls (snd (the (P_TryMove (ledge_env 0 7) 1 0x140000 0 False base_world))))
     = [P_CrossSpecialLine 1 0 1]"
proof -
  let ?e = "ledge_env 0 7"
  have c: "map_option fst (P_CheckPosition ?e 1 0x140000 0 (base_world\<lparr>felldown := False, floatok := False\<rparr>)) = Some True"
    and r: "map_option fst (P_TryMove ?e 1 0x140000 0 False base_world) = Some True"
    by code_simp+
  let ?w1 = "snd (the (P_CheckPosition ?e 1 0x140000 0 (base_world\<lparr>felldown := False, floatok := False\<rparr>)))"
  have rhs: "crossings (calls base_world) @
           (if True \<and> \<not> too_tight ?e 1 ?w1 \<and> MF_TELEPORT \<notin> flags (mobjs base_world 1)
            then fired ?e 1 (mobj_x (mobjs base_world 1)) (mobj_y (mobjs base_world 1)) 0x140000 0 (rev (spechit ?w1))
            else []) = [P_CrossSpecialLine 1 0 1]"
    by code_simp
  from P_TryMove_specials [OF fst_SomeD [OF c] fst_SomeD [OF r]] show ?thesis
    by (rule trans [OF _ rhs])
qed


section \<open>Walks along a thread\<close>

text \<open>
  Facts about \<open>path\<close> and \<open>linked\<close> for any pair of link fields: what a walk depends on, and
  how putting a node in front and taking a node out change it.
\<close>

lemma path_cong: "(\<And>a. a \<in> set as \<Longrightarrow> nx (h' a) = nx (h a)) \<Longrightarrow> path nx h' p as = path nx h p as"
  by (induction as arbitrary: p) auto

lemma linked_cong: "(\<And>a. a \<in> set as \<Longrightarrow> pv (h' a) = pv (h a)) \<Longrightarrow> linked pv h' q as = linked pv h q as"
  by (induction as arbitrary: q) auto

lemma path_unique: "path nx h p as \<Longrightarrow> path nx h p bs \<Longrightarrow> as = bs"
proof (induction as arbitrary: p bs)
  case Nil then show ?case by (cases bs) auto
next
  case (Cons a as) then show ?case by (cases bs) auto
qed

lemma path_None [simp]: "path nx h None as = (as = [])"
  by (cases as) auto

lemma path_Some: "path nx h (Some a) as = (\<exists>bs. as = a # bs \<and> path nx h (nx (h a)) bs)"
  by (cases as) auto

lemma path_head_in: "path nx h (Some a) as \<Longrightarrow> a \<in> set as"
  by (auto simp: path_Some)

lemma linked_prev_in:
  "linked pv h r as \<Longrightarrow> a \<in> set as \<Longrightarrow> pv (h a) = r \<or> pv (h a) \<in> Some ` set as"
  by (induction as arbitrary: r) auto

lemma path_next_in:
  "path nx h p as \<Longrightarrow> a \<in> set as \<Longrightarrow> nx (h a) = None \<or> nx (h a) \<in> Some ` set as"
  by (induction as arbitrary: p) (auto simp: path_Some)

lemma linked_append:
  "linked pv h q (as @ bs) = (linked pv h q as \<and> linked pv h (if as = [] then q else Some (last as)) bs)"
  by (induction as arbitrary: q) auto

lemma path_suffix:
  "path nx h p (as @ bs) \<Longrightarrow> path nx h (if as = [] then p else nx (h (last as))) bs"
  by (induction as arbitrary: p) auto

lemma linked_head_iff:
  assumes "path nx h p as" and "linked pv h None as" and "distinct as" and "a \<in> set as"
  shows "(pv (h a) = None) = (p = Some a)"
proof (cases as)
  case Nil then show ?thesis using assms by simp
next
  case (Cons b bs)
  show ?thesis
  proof (cases "a = b")
    case True then show ?thesis using assms Cons by simp
  next
    case False
    then have "a \<in> set bs" using assms(4) Cons by simp
    moreover have "linked pv h (Some b) bs" using assms(2) Cons by simp
    ultimately have "pv (h a) = Some b \<or> pv (h a) \<in> Some ` set bs" by (rule linked_prev_in [rotated])
    then show ?thesis using False assms(1) Cons by auto
  qed
qed

lemma reachable_path: "path nx h p as \<Longrightarrow> reachable nx h p a = (a \<in> set as)"
proof
  assume p: "path nx h p as" and r: "reachable nx h p a"
  from r p show "a \<in> set as"
  proof (induction arbitrary: as rule: reachable.induct)
    case (here a) then show ?case by (auto simp: path_Some)
  next
    case (further b a) then show ?case by (auto simp: path_Some)
  qed
next
  assume "path nx h p as" and "a \<in> set as"
  then show "reachable nx h p a"
  proof (induction as arbitrary: p)
    case Nil then show ?case by simp
  next
    case (Cons b bs)
    then show ?case by (cases "a = b") (auto intro: reachable.intros)
  qed
qed

lemma push:
  assumes "path nx h p as" and "linked pv h None as" and "distinct as" and "a \<notin> set as"
    and "nx (h' a) = p" and "pv (h' a) = None"
    and new: "\<And>x. x \<in> set as \<Longrightarrow> nx (h' x) = nx (h x) \<and> pv (h' x) = (if Some x = p then Some a else pv (h x))"
  shows "path nx h' (Some a) (a # as) \<and> linked pv h' None (a # as)"
proof -
  have "path nx h' p as = path nx h p as" by (rule path_cong) (simp add: new)
  moreover have "linked pv h' (Some a) as"
  proof (cases as)
    case Nil then show ?thesis by simp
  next
    case (Cons b bs)
    have b: "p = Some b" "b \<notin> set bs" using assms(1,3) Cons by auto
    have bin: "\<And>x. x \<in> set bs \<Longrightarrow> x \<noteq> b" using b by auto
    have "linked pv h' (Some b) bs = linked pv h (Some b) bs"
      by (rule linked_cong) (simp add: new Cons b bin)
    moreover have "pv (h' b) = Some a" using new [of b] Cons b by simp
    ultimately show ?thesis using Cons assms(2) by simp
  qed
  ultimately show ?thesis using assms by simp
qed

lemma keep:
  assumes "path nx h p as" and "linked pv h q as"
    and same: "\<And>x. x \<in> set as \<Longrightarrow> nx (h' x) = nx (h x) \<and> pv (h' x) = pv (h x)"
  shows "path nx h' p as \<and> linked pv h' q as"
proof -
  have "path nx h' p as = path nx h p as" by (rule path_cong) (simp add: same)
  moreover have "linked pv h' q as = linked pv h q as" by (rule linked_cong) (simp add: same)
  ultimately show ?thesis using assms by simp
qed

lemma unlink:
  assumes "path nx h p as" and "linked pv h q as" and "distinct as" and "a \<in> set as"
    and "\<And>x. q = Some x \<Longrightarrow> x \<notin> set as"
    and nx': "\<And>x. x \<noteq> a \<Longrightarrow> nx (h' x) = (if Some x = pv (h a) then nx (h a) else nx (h x))"
    and pv': "\<And>x. x \<noteq> a \<Longrightarrow> pv (h' x) = (if Some x = nx (h a) then pv (h a) else pv (h x))"
  shows "path nx h' (if p = Some a then nx (h a) else p) (remove1 a as) \<and> linked pv h' q (remove1 a as)"
  using assms(1-5)
proof (induction as arbitrary: p q)
  case Nil then show ?case by simp
next
  case (Cons b bs)
  have p: "p = Some b" and pb: "path nx h (nx (h b)) bs" and qb: "pv (h b) = q"
    and lb: "linked pv h (Some b) bs" and nb: "b \<notin> set bs" and db: "distinct bs"
    using Cons.prems by auto
  have qn: "\<And>x. q = Some x \<Longrightarrow> x \<noteq> b \<and> x \<notin> set bs" using Cons.prems(5) by auto
  show ?case
  proof (cases "b = a")
    case True
    have nxs: "\<And>x. x \<in> set bs \<Longrightarrow> nx (h' x) = nx (h x)"
      using nb True qb qn nx' by (metis)
    have P: "path nx h' (nx (h a)) bs" using pb True path_cong [of bs nx h' h, OF nxs] by simp
    have L: "linked pv h' q bs"
    proof (cases bs)
      case Nil then show ?thesis by simp
    next
      case (Cons c cs)
      have c: "nx (h a) = Some c" and ca: "c \<noteq> a" using pb True Cons nb by auto
      have "pv (h' c) = q" using pv' [OF ca] c qb True by simp
      moreover have "linked pv h' (Some c) cs = linked pv h (Some c) cs"
      proof (rule linked_cong)
        fix x assume x: "x \<in> set cs"
        then have "x \<noteq> a" "Some x \<noteq> nx (h a)" using Cons nb True db c by auto
        then show "pv (h' x) = pv (h x)" using pv' by simp
      qed
      moreover have "linked pv h (Some c) cs" using lb Cons by simp
      ultimately show ?thesis using Cons by simp
    qed
    show ?thesis using P L p True by simp
  next
    case False
    have ain: "a \<in> set bs" using Cons.prems(4) False by simp
    have IH: "path nx h' (if nx (h b) = Some a then nx (h a) else nx (h b)) (remove1 a bs)
              \<and> linked pv h' (Some b) (remove1 a bs)"
      using Cons.IH [OF pb lb db ain] nb by simp
    have pred: "(Some b = pv (h a)) = (nx (h b) = Some a)"
    proof
      assume e: "Some b = pv (h a)"
      obtain c cs where bs: "bs = c # cs" using ain by (cases bs) auto
      have c: "nx (h b) = Some c" using pb bs by simp
      show "nx (h b) = Some a"
      proof (cases "c = a")
        case True then show ?thesis using c by simp
      next
        case F2: False
        have "a \<in> set cs" using ain bs F2 by simp
        moreover have "linked pv h (Some c) cs" using lb bs by simp
        ultimately have "pv (h a) = Some c \<or> pv (h a) \<in> Some ` set cs" by (rule linked_prev_in [rotated])
        then show ?thesis using e nb bs by auto
      qed
    next
      assume "nx (h b) = Some a"
      then obtain cs where "bs = a # cs" using pb by (auto simp: path_Some)
      then show "Some b = pv (h a)" using lb by simp
    qed
    have nxb: "nx (h' b) = (if nx (h b) = Some a then nx (h a) else nx (h b))"
      using nx' [OF False] pred by simp
    have pvb: "pv (h' b) = q"
    proof -
      have "Some b \<noteq> nx (h a)" using path_next_in [OF pb ain] nb by auto
      then show ?thesis using pv' [OF False] qb by simp
    qed
    show ?thesis using IH p False nxb pvb by simp
  qed
qed

section \<open>The helpers of the membership nodes\<close>

lemma find_secnode_None: "find_secnode h sec None = Some None"
  by (subst find_secnode.simps) simp

lemma find_secnode_path:
  "path m_tnext h p as \<Longrightarrow> find_secnode h sec p = Some (find (\<lambda>a. m_sector (h a) = sec) as)"
proof (induction as arbitrary: p)
  case Nil then show ?case by (subst find_secnode.simps) simp
next
  case (Cons a as)
  then show ?case by (subst find_secnode.simps) auto
qed

lemma clear_m_things_path:
  "path m_tnext (node s) p as \<Longrightarrow> clear_m_things p s = Some (cleared as s)"
proof (induction as arbitrary: p s)
  case Nil then show ?case by (subst clear_m_things.simps) (simp add: cleared_def)
next
  case (Cons a as)
  let ?s = "poke a (\<lambda>n. n\<lparr>m_thing := None\<rparr>) s"
  have p: "p = Some a" and pa: "path m_tnext (node s) (m_tnext (node s a)) as" using Cons.prems by auto
  have "path m_tnext (node ?s) (m_tnext (node s a)) as = path m_tnext (node s) (m_tnext (node s a)) as"
    by (rule path_cong) (simp add: poke_def)
  then have "clear_m_things (m_tnext (node s a)) ?s = Some (cleared as ?s)" using Cons.IH pa by simp
  moreover have "cleared as ?s = cleared (a # as) s"
    by (auto simp: cleared_def poke_def fun_eq_iff)
  ultimately show ?case using p by (subst clear_m_things.simps) simp
qed

lemma touching_sectors_path:
  "path m_tnext h p as \<Longrightarrow> touching_sectors h p = Some (map (\<lambda>a. m_sector (h a)) as)"
proof (induction as arbitrary: p)
  case Nil then show ?case by (subst touching_sectors.simps) simp
next
  case (Cons a as) then show ?case by (subst touching_sectors.simps) auto
qed

lemma P_DelSecnode_fst: "fst (P_DelSecnode a s) = m_tnext (node s a)"
  by (simp add: P_DelSecnode_def Let_def)

lemma P_DelSecnode_removed: "removed a s (snd (P_DelSecnode a s))"
proof -
  define tp tn where "tp = m_tprev (node s a)" and "tn = m_tnext (node s a)"
  define s1 where "s1 = (case tp of None \<Rightarrow> s | Some p \<Rightarrow> poke p (\<lambda>n. n\<lparr>m_tnext := tn\<rparr>) s)"
  define s2 where "s2 = (case tn of None \<Rightarrow> s1 | Some q \<Rightarrow> poke q (\<lambda>n. n\<lparr>m_tprev := tp\<rparr>) s1)"
  define sp sn where "sp = m_sprev (node s2 a)" and "sn = m_snext (node s2 a)"
  define s3 where "s3 = (case sp of
                 Some p \<Rightarrow> poke p (\<lambda>n. n\<lparr>m_snext := sn\<rparr>) s2
               | None \<Rightarrow> s2\<lparr>touching_thinglist := (touching_thinglist s2)(m_sector (node s2 a) := sn)\<rparr>)"
  define s4 where "s4 = (case sn of None \<Rightarrow> s3 | Some q \<Rightarrow> poke q (\<lambda>n. n\<lparr>m_sprev := sp\<rparr>) s3)"
  have f1: "sector_list s1 = sector_list s" "brk s1 = brk s" "zone_limit s1 = zone_limit s"
    "headsecnode s1 = headsecnode s" "touching_thinglist s1 = touching_thinglist s"
    "\<And>x. m_sector (node s1 x) = m_sector (node s x)" "\<And>x. m_thing (node s1 x) = m_thing (node s x)"
    "\<And>x. m_snext (node s1 x) = m_snext (node s x)" "\<And>x. m_sprev (node s1 x) = m_sprev (node s x)"
    "\<And>x. m_tprev (node s1 x) = m_tprev (node s x)"
    "\<And>x. m_tnext (node s1 x) = (if Some x = tp then tn else m_tnext (node s x))"
    by (cases tp; simp add: s1_def poke_def; fail)+
  have f2: "sector_list s2 = sector_list s" "brk s2 = brk s" "zone_limit s2 = zone_limit s"
    "headsecnode s2 = headsecnode s" "touching_thinglist s2 = touching_thinglist s"
    "\<And>x. m_sector (node s2 x) = m_sector (node s x)" "\<And>x. m_thing (node s2 x) = m_thing (node s x)"
    "\<And>x. m_snext (node s2 x) = m_snext (node s x)" "\<And>x. m_sprev (node s2 x) = m_sprev (node s x)"
    "\<And>x. m_tprev (node s2 x) = (if Some x = tn then tp else m_tprev (node s x))"
    "\<And>x. m_tnext (node s2 x) = (if Some x = tp then tn else m_tnext (node s x))"
    by (cases tn; simp add: s2_def poke_def f1; fail)+
  have f3: "sector_list s3 = sector_list s" "brk s3 = brk s" "zone_limit s3 = zone_limit s"
    "headsecnode s3 = headsecnode s"
    "touching_thinglist s3 = (if sp = None then (touching_thinglist s)(m_sector (node s a) := sn)
                              else touching_thinglist s)"
    "\<And>x. m_sector (node s3 x) = m_sector (node s x)" "\<And>x. m_thing (node s3 x) = m_thing (node s x)"
    "\<And>x. m_snext (node s3 x) = (if Some x = sp then sn else m_snext (node s x))"
    "\<And>x. m_sprev (node s3 x) = m_sprev (node s x)"
    "\<And>x. m_tprev (node s3 x) = (if Some x = tn then tp else m_tprev (node s x))"
    "\<And>x. m_tnext (node s3 x) = (if Some x = tp then tn else m_tnext (node s x))"
    by (cases sp; simp add: s3_def poke_def f2; fail)+
  have f4: "sector_list s4 = sector_list s" "brk s4 = brk s" "zone_limit s4 = zone_limit s"
    "headsecnode s4 = headsecnode s"
    "touching_thinglist s4 = (if sp = None then (touching_thinglist s)(m_sector (node s a) := sn)
                              else touching_thinglist s)"
    "\<And>x. m_sector (node s4 x) = m_sector (node s x)" "\<And>x. m_thing (node s4 x) = m_thing (node s x)"
    "\<And>x. m_snext (node s4 x) = (if Some x = sp then sn else m_snext (node s x))"
    "\<And>x. m_sprev (node s4 x) = (if Some x = sn then sp else m_sprev (node s x))"
    "\<And>x. m_tprev (node s4 x) = (if Some x = tn then tp else m_tprev (node s x))"
    "\<And>x. m_tnext (node s4 x) = (if Some x = tp then tn else m_tnext (node s x))"
    by (cases sn; simp add: s4_def poke_def f3; fail)+
  have e: "snd (P_DelSecnode a s) = P_PutSecnode a s4"
    unfolding P_DelSecnode_def Let_def s4_def s3_def sp_def sn_def s2_def s1_def tp_def tn_def snd_conv
    by (rule refl)
  have sp: "sp = m_sprev (node s a)" "sn = m_snext (node s a)" by (simp_all add: sp_def sn_def f2)
  define s5 where "s5 = P_PutSecnode a s4"
  have f5: "sector_list s5 = sector_list s" "brk s5 = brk s" "zone_limit s5 = zone_limit s"
    "headsecnode s5 = Some a" "m_snext (node s5 a) = headsecnode s"
    "touching_thinglist s5 = (if sp = None then (touching_thinglist s)(m_sector (node s a) := sn)
                              else touching_thinglist s)"
    "\<And>x. m_sector (node s5 x) = m_sector (node s x)" "\<And>x. m_thing (node s5 x) = m_thing (node s x)"
    "\<And>x. m_sprev (node s5 x) = (if Some x = sn then sp else m_sprev (node s x))"
    "\<And>x. m_tprev (node s5 x) = (if Some x = tn then tp else m_tprev (node s x))"
    "\<And>x. m_tnext (node s5 x) = (if Some x = tp then tn else m_tnext (node s x))"
    by (simp add: s5_def P_PutSecnode_def poke_def f4; fail)+
  have f6: "\<And>x. x \<noteq> a \<Longrightarrow> m_snext (node s5 x) = (if Some x = sp then sn else m_snext (node s x))"
    by (simp add: s5_def P_PutSecnode_def poke_def f4)
  have "removed a s s5" unfolding removed_def sp [symmetric] tp_def [symmetric] tn_def [symmetric]
    by (intro conjI allI impI) (simp_all only: f5 f6 if_True if_False simp_thms)
  then show ?thesis by (simp only: e s5_def)
qed

lemma P_DelSecnode_tnext:
  "x \<noteq> a \<Longrightarrow> m_tnext (node (snd (P_DelSecnode a s)) x)
     = (if Some x = m_tprev (node s a) then m_tnext (node s a) else m_tnext (node s x))"
  using P_DelSecnode_removed [of a s] by (simp add: removed_def)

lemma P_DelSecnode_tprev:
  "x \<noteq> a \<Longrightarrow> m_tprev (node (snd (P_DelSecnode a s)) x)
     = (if Some x = m_tnext (node s a) then m_tprev (node s a) else m_tprev (node s x))"
  using P_DelSecnode_removed [of a s] by (simp add: removed_def)

lemma P_DelSecnode_keeps:
  "m_sector (node (snd (P_DelSecnode a s)) x) = m_sector (node s x)"
  "m_thing (node (snd (P_DelSecnode a s)) x) = m_thing (node s x)"
  "sector_list (snd (P_DelSecnode a s)) = sector_list s"
  using P_DelSecnode_removed [of a s] by (simp_all add: removed_def)

lemma delete_unused_path:
  assumes "path m_tnext (node s) (sector_list s) (pre @ rest)"
    and "linked m_tprev (node s) None (pre @ rest)"
    and "distinct (pre @ rest)"
    and "\<forall>a\<in>set pre. kept s a"
    and "p = (if pre = [] then sector_list s else m_tnext (node s (last pre)))"
  shows "\<exists>s'. delete_unused p s = Some s'
           \<and> path m_tnext (node s') (sector_list s') (pre @ filter (kept s) rest)
           \<and> linked m_tprev (node s') None (pre @ filter (kept s) rest)
           \<and> (\<forall>x. m_sector (node s' x) = m_sector (node s x) \<and> m_thing (node s' x) = m_thing (node s x))"
  using assms
proof (induction rest arbitrary: s pre p)
  case Nil
  have "p = None" using path_suffix [OF Nil.prems(1)] Nil.prems(5) by simp
  then show ?case using Nil.prems by (subst delete_unused.simps) simp
next
  case (Cons a rest)
  have pa: "path m_tnext (node s) p (a # rest)" using path_suffix [OF Cons.prems(1)] Cons.prems(5) by simp
  then have p: "p = Some a" by simp
  show ?case
  proof (cases "kept s a")
    case True
    have "\<exists>s'. delete_unused (m_tnext (node s a)) s = Some s'
           \<and> path m_tnext (node s') (sector_list s') ((pre @ [a]) @ filter (kept s) rest)
           \<and> linked m_tprev (node s') None ((pre @ [a]) @ filter (kept s) rest)
           \<and> (\<forall>x. m_sector (node s' x) = m_sector (node s x) \<and> m_thing (node s' x) = m_thing (node s x))"
      using Cons.prems True by (intro Cons.IH) auto
    moreover have "delete_unused p s = delete_unused (m_tnext (node s a)) s"
      using True p by (subst delete_unused.simps) (auto simp: kept_def)
    ultimately show ?thesis using True by simp
  next
    case False
    define s1 where "s1 = (if Some a = sector_list s then s\<lparr>sector_list := m_tnext (node s a)\<rparr> else s)"
    define s2 where "s2 = snd (P_DelSecnode a s1)"
    have n1: "node s1 = node s" by (simp add: s1_def)
    have anp: "a \<notin> set pre" using Cons.prems(3) by auto
    have rm: "remove1 a (pre @ a # rest) = pre @ rest" using anp by (simp add: remove1_append)
    have U: "path m_tnext (node s2) (if sector_list s = Some a then m_tnext (node s a) else sector_list s) (remove1 a (pre @ a # rest))
             \<and> linked m_tprev (node s2) None (remove1 a (pre @ a # rest))"
      using Cons.prems(1,2,3)
      by (rule unlink) (simp_all add: s2_def P_DelSecnode_tnext P_DelSecnode_tprev n1)
    have sl2: "sector_list s2 = (if sector_list s = Some a then m_tnext (node s a) else sector_list s)"
      by (auto simp: s2_def P_DelSecnode_keeps s1_def)
    have keep: "\<And>x. m_sector (node s2 x) = m_sector (node s x) \<and> m_thing (node s2 x) = m_thing (node s x)"
      by (simp add: s2_def P_DelSecnode_keeps n1)
    have k2: "kept s2 = kept s" by (simp add: kept_def fun_eq_iff keep)
    have tn: "m_tnext (node s a) = (if pre = [] then sector_list s2 else m_tnext (node s2 (last pre)))"
    proof (cases "pre = []")
      case True
      then show ?thesis using Cons.prems(1) sl2 by simp
    next
      case F: False
      have la: "last pre \<noteq> a" using anp F last_in_set by metis
      have "m_tprev (node s a) = Some (last pre)" using Cons.prems(2) F by (simp add: linked_append)
      then show ?thesis using F la by (simp add: s2_def P_DelSecnode_tnext n1)
    qed
    have "\<exists>s'. delete_unused (m_tnext (node s a)) s2 = Some s'
           \<and> path m_tnext (node s') (sector_list s') (pre @ filter (kept s2) rest)
           \<and> linked m_tprev (node s') None (pre @ filter (kept s2) rest)
           \<and> (\<forall>x. m_sector (node s' x) = m_sector (node s2 x) \<and> m_thing (node s' x) = m_thing (node s2 x))"
    proof (rule Cons.IH)
      show "path m_tnext (node s2) (sector_list s2) (pre @ rest)" using U rm sl2 by simp
      show "linked m_tprev (node s2) None (pre @ rest)" using U rm by simp
      show "distinct (pre @ rest)" using Cons.prems(3) by simp
      show "\<forall>a\<in>set pre. kept s2 a" using Cons.prems(4) k2 by simp
      show "m_tnext (node s a) = (if pre = [] then sector_list s2 else m_tnext (node s2 (last pre)))" by (rule tn)
    qed
    then obtain s' where s': "delete_unused (m_tnext (node s a)) s2 = Some s'"
      "path m_tnext (node s') (sector_list s') (pre @ filter (kept s) rest)"
      "linked m_tprev (node s') None (pre @ filter (kept s) rest)"
      "\<forall>x. m_sector (node s' x) = m_sector (node s x) \<and> m_thing (node s' x) = m_thing (node s x)"
      using k2 keep by auto
    have "delete_unused p s = delete_unused (m_tnext (node s a)) s2"
      using False p
      by (subst delete_unused.simps)
         (simp add: kept_def s2_def s1_def Let_def case_prod_beta P_DelSecnode_fst)
    then show ?thesis using s' False by auto
  qed
qed

lemma P_AddSecnode_scratch:
  assumes "P_AddSecnode R th p s = Some (p', s')"
  shows "sl_tmthing s' = sl_tmthing s" "sl_tmbbox s' = sl_tmbbox s" "sl_tmx s' = sl_tmx s"
    "sl_tmy s' = sl_tmy s" "sl_validcount s' = sl_validcount s" "zone_limit s' = zone_limit s"
  using assms
  by (auto simp: P_AddSecnode_def P_GetSecnode_def Z_Malloc_def poke_def Let_def
           split: option.splits if_splits)

lemma P_AddSecnode_new:
  assumes "find_secnode (node s) R p = Some None" and "P_AddSecnode R th p s = Some (p', s')"
  shows "\<exists>a. p' = Some a \<and> taken a s s' \<and> added R th p a s s'"
proof -
  obtain a s1 where g: "P_GetSecnode s = Some (a, s1)"
    using assms by (auto simp: P_AddSecnode_def split: option.splits)
  have n1: "node s1 = node s" "touching_thinglist s1 = touching_thinglist s" "sector_list s1 = sector_list s"
    and tk: "taken a s s1"
    using g by (auto simp: P_GetSecnode_def Z_Malloc_def taken_def split: option.splits if_splits)
  have p': "p' = Some a" using assms g by (auto simp: P_AddSecnode_def Let_def)
  have s': "s' = (let s2 = poke a (\<lambda>n. n\<lparr>m_sector := R, m_thing := th,
                                   m_tprev := None, m_tnext := p\<rparr>) s1;
                s3 = (case p of None \<Rightarrow> s2
                      | Some nx \<Rightarrow> poke nx (\<lambda>n. n\<lparr>m_tprev := Some a\<rparr>) s2);
                s4 = poke a (\<lambda>n. n\<lparr>m_sprev := None, m_snext := touching_thinglist s3 R\<rparr>) s3;
                s5 = (case touching_thinglist s4 R of None \<Rightarrow> s4
                      | Some _ \<Rightarrow>
                          (case m_snext (node s4 a) of None \<Rightarrow> s4
                           | Some sn \<Rightarrow> poke sn (\<lambda>n. n\<lparr>m_sprev := Some a\<rparr>) s4))
            in s5\<lparr>touching_thinglist := (touching_thinglist s5)(R := Some a)\<rparr>)"
    using assms g by (auto simp: P_AddSecnode_def Let_def)
  have "taken a s s'" using tk unfolding s' taken_def
    by (cases p; cases "touching_thinglist s R") (simp_all add: Let_def poke_def n1)
  moreover have "added R th p a s s'" unfolding s' added_def
    by (cases p; cases "touching_thinglist s R") (simp_all add: Let_def poke_def n1)
  ultimately show ?thesis using p' by simp
qed

lemma P_AddSecnode_found:
  assumes "find_secnode (node s) R p = Some (Some a)"
  shows "P_AddSecnode R th p s = Some (p, poke a (\<lambda>n. n\<lparr>m_thing := th\<rparr>) s)"
  using assms by (simp add: P_AddSecnode_def)

section \<open>Rebuilding the thread of an object\<close>

text \<open>
  \<open>P_CreateSecNodeList\<close> is the clearing loop, one call of \<open>P_AddSecnode\<close> for each sector of
  \<open>wanted\<close>, and the deleting loop.  After the calls of \<open>P_AddSecnode\<close> the confirmed nodes are
  the first nodes of the thread for the wanted sectors; the deleting loop keeps exactly these.
\<close>

lemma add_step_scratch:
  assumes "add_step R s = Some s'"
  shows "sl_tmthing s' = sl_tmthing s" "sl_tmbbox s' = sl_tmbbox s"
  using assms P_AddSecnode_scratch(1,2)
  by (auto simp: add_step_def split: option.splits prod.splits)

lemma add_all_scratch:
  "add_all Rs s = Some s' \<Longrightarrow> sl_tmthing s' = sl_tmthing s \<and> sl_tmbbox s' = sl_tmbbox s"
  by (induction Rs arbitrary: s) (auto split: option.splits dest: add_step_scratch)

lemma add_all_append:
  "add_all (xs @ ys) s = (case add_all xs s of None \<Rightarrow> None | Some s' \<Rightarrow> add_all ys s')"
  by (induction xs arbitrary: s) (auto split: option.splits)

lemma PIT_GetSectors_add_all: "PIT_GetSectors e ld s = add_all (touched e (sl_tmbbox s) ld) s"
  by (auto simp: PIT_GetSectors_def touched_def Let_def add_step_def split: option.splits prod.splits)

lemma get_sectors_lines_add_all:
  "get_sectors_lines e lds s = add_all (concat (map (touched e (sl_tmbbox s)) lds)) s"
proof (induction lds arbitrary: s)
  case Nil show ?case by simp
next
  case (Cons ld lds)
  show ?case
  proof (cases "add_all (touched e (sl_tmbbox s) ld) s")
    case None then show ?thesis by (simp add: PIT_GetSectors_add_all add_all_append)
  next
    case (Some s')
    then have "sl_tmbbox s' = sl_tmbbox s" using add_all_scratch by blast
    then show ?thesis using Some Cons.IH [of s'] by (simp add: PIT_GetSectors_add_all add_all_append)
  qed
qed

lemma find_SomeD: "find P xs = Some x \<Longrightarrow> x \<in> set xs \<and> P x"
  by (induction xs) (auto split: if_splits)

lemma find_cong_set: "(\<And>x. x \<in> set xs \<Longrightarrow> P x = Q x) \<Longrightarrow> find P xs = find Q xs"
  by (induction xs) auto

lemma find_distinct_map:
  "distinct (map f xs) \<Longrightarrow> a \<in> set xs \<Longrightarrow> find (\<lambda>b. f b = f a) xs = Some a"
proof (induction xs)
  case Nil then show ?case by simp
next
  case (Cons x xs)
  show ?case
  proof (cases "x = a")
    case True then show ?thesis by simp
  next
    case False
    then have ain: "a \<in> set xs" using Cons.prems by simp
    then have "f x \<noteq> f a" using Cons.prems(1) by force
    moreover have "find (\<lambda>b. f b = f a) xs = Some a" using Cons.IH Cons.prems(1) ain by simp
    ultimately show ?thesis by simp
  qed
qed

lemma confirmed_found:
  assumes "confirmed sec kp as W" and "find (\<lambda>b. sec b = R) as = Some a0"
  shows "confirmed sec (kp(a0 := True)) as (insert R W)"
proof -
  have a0: "a0 \<in> set as" "sec a0 = R" using find_SomeD [OF assms(2)] by auto
  show ?thesis unfolding confirmed_def
  proof (intro conjI ballI)
    fix a assume a: "a \<in> set as"
    show "(kp(a0 := True)) a = (sec a \<in> insert R W \<and> find (\<lambda>b. sec b = sec a) as = Some a)"
    proof (cases "sec a = R")
      case True
      then show ?thesis using assms a a0 by (auto simp: confirmed_def)
    next
      case False
      then have "a \<noteq> a0" using a0 by auto
      then show ?thesis using assms(1) a False by (auto simp: confirmed_def)
    qed
  next
    fix R' assume "R' \<in> insert R W"
    then show "find (\<lambda>b. sec b = R') as \<noteq> None" using assms by (auto simp: confirmed_def)
  qed
qed

lemma confirmed_cong:
  assumes "\<And>a. a \<in> set as \<Longrightarrow> sec' a = sec a \<and> kp' a = kp a"
  shows "confirmed sec' kp' as W = confirmed sec kp as W"
proof -
  have "\<And>R. find (\<lambda>b. sec' b = R) as = find (\<lambda>b. sec b = R) as"
    by (rule find_cong_set) (simp add: assms)
  then show ?thesis using assms by (simp add: confirmed_def)
qed

lemma confirmed_new:
  assumes "confirmed sec kp as W" and "find (\<lambda>b. sec b = R) as = None" and "a \<notin> set as"
    and "sec' a = R" and "kp' a" and "\<And>x. x \<in> set as \<Longrightarrow> sec' x = sec x \<and> kp' x = kp x"
  shows "confirmed sec' kp' (a # as) (insert R W)"
proof -
  have nR: "\<And>x. x \<in> set as \<Longrightarrow> sec x \<noteq> R" using assms(2) by (auto simp: find_None_iff)
  have c: "confirmed sec' kp' as W" using assms(1,6) confirmed_cong [of as sec' sec kp' kp] by blast
  have RW: "R \<notin> W"
  proof
    assume "R \<in> W"
    then have "find (\<lambda>b. sec' b = R) as \<noteq> None" using c by (simp add: confirmed_def)
    then obtain x where "x \<in> set as" "sec' x = R" by (auto simp: find_None_iff)
    then show False using nR assms(6) by auto
  qed
  show ?thesis unfolding confirmed_def
  proof (intro conjI ballI)
    fix x assume x: "x \<in> set (a # as)"
    show "kp' x = (sec' x \<in> insert R W \<and> find (\<lambda>b. sec' b = sec' x) (a # as) = Some x)"
    proof (cases "x = a")
      case True then show ?thesis using assms(4,5) by simp
    next
      case False
      then have xin: "x \<in> set as" using x by simp
      then have "sec' x \<noteq> R" using nR assms(6) by auto
      then show ?thesis using c xin assms(4) False by (auto simp: confirmed_def)
    qed
  next
    fix R' assume "R' \<in> insert R W"
    then show "find (\<lambda>b. sec' b = R') (a # as) \<noteq> None" using c assms(4) by (auto simp: confirmed_def)
  qed
qed

lemma confirmed_kept:
  assumes c: "confirmed sec kp as W" and d: "distinct as"
  shows "distinct (map sec (filter kp as))" and "sec ` set (filter kp as) = W"
proof -
  have k: "\<And>a. a \<in> set as \<Longrightarrow> kp a \<Longrightarrow> sec a \<in> W \<and> find (\<lambda>b. sec b = sec a) as = Some a"
    using c by (simp add: confirmed_def)
  have "inj_on sec (set (filter kp as))"
  proof (rule inj_onI)
    fix x y assume x: "x \<in> set (filter kp as)" and y: "y \<in> set (filter kp as)" and e: "sec x = sec y"
    have "find (\<lambda>b. sec b = sec x) as = Some x" using k [of x] x by simp
    then have "find (\<lambda>b. sec b = sec y) as = Some x" by (simp only: e)
    moreover have "find (\<lambda>b. sec b = sec y) as = Some y" using k [of y] y by simp
    ultimately have "Some x = Some y" by (rule trans [OF sym])
    then show "x = y" by (simp only: option.inject)
  qed
  then show "distinct (map sec (filter kp as))" using d by (simp add: distinct_map)
  show "sec ` set (filter kp as) = W"
  proof (intro set_eqI iffI)
    fix R assume "R \<in> sec ` set (filter kp as)"
    then show "R \<in> W" using k by auto
  next
    fix R assume R: "R \<in> W"
    then obtain a where a: "find (\<lambda>b. sec b = R) as = Some a" using c by (auto simp: confirmed_def)
    then have "a \<in> set as" "sec a = R" using find_SomeD [OF a] by auto
    moreover then have "kp a" using c R a by (auto simp: confirmed_def)
    ultimately show "R \<in> sec ` set (filter kp as)" by auto
  qed
qed

lemma add_step_found:
  assumes "thread_ok s as" and "find (\<lambda>b. sector_of s b = R) as = Some a0"
  shows "add_step R s = Some (poke a0 (\<lambda>n. n\<lparr>m_thing := sl_tmthing s\<rparr>) s)"
proof -
  have "find_secnode (node s) R (sector_list s) = Some (Some a0)"
    using assms find_secnode_path [of "node s" "sector_list s" as R]
    by (simp add: thread_ok_def sector_of_def)
  then show ?thesis by (simp add: add_step_def P_AddSecnode_found poke_def)
qed

lemma poke_thing_thread:
  "thread_ok (poke a (\<lambda>n. n\<lparr>m_thing := th\<rparr>) s) as = thread_ok s as"
proof -
  let ?s = "poke a (\<lambda>n. n\<lparr>m_thing := th\<rparr>) s"
  have "path m_tnext (node ?s) (sector_list s) as = path m_tnext (node s) (sector_list s) as"
    by (rule path_cong) (simp add: poke_def)
  moreover have "linked m_tprev (node ?s) None as = linked m_tprev (node s) None as"
    by (rule linked_cong) (simp add: poke_def)
  moreover have "sector_list ?s = sector_list s" by (simp add: poke_def)
  ultimately show ?thesis by (simp add: thread_ok_def)
qed

lemma poke_thing_facts:
  "sector_of (poke a (\<lambda>n. n\<lparr>m_thing := th\<rparr>) s) = sector_of s"
  "sl_tmthing (poke a (\<lambda>n. n\<lparr>m_thing := th\<rparr>) s) = sl_tmthing s"
  "sector_list (poke a (\<lambda>n. n\<lparr>m_thing := th\<rparr>) s) = sector_list s"
  "kept (poke a (\<lambda>n. n\<lparr>m_thing := Some t\<rparr>) s) = (kept s)(a := True)"
  by (auto simp: sector_of_def kept_def poke_def fun_eq_iff)

lemma poke_thing_pool:
  "pool_ok (poke a (\<lambda>n. n\<lparr>m_thing := th\<rparr>) s) as fl = pool_ok s as fl"
proof -
  let ?s = "poke a (\<lambda>n. n\<lparr>m_thing := th\<rparr>) s"
  have "path m_snext (node ?s) (headsecnode s) fl = path m_snext (node s) (headsecnode s) fl"
    by (rule path_cong) (simp add: poke_def)
  moreover have "headsecnode ?s = headsecnode s" "brk ?s = brk s" by (simp_all add: poke_def)
  ultimately show ?thesis by (simp add: pool_ok_def)
qed

lemma add_step_new:
  assumes t: "thread_ok s as" and f: "pool_ok s as fl"
    and n: "find (\<lambda>b. sector_of s b = R) as = None" and st: "add_step R s = Some s'"
  shows "\<exists>a fl'. a \<notin> set as \<and> thread_ok s' (a # as) \<and> pool_ok s' (a # as) fl'
           \<and> sector_of s' a = R \<and> m_thing (node s' a) = sl_tmthing s
           \<and> (\<forall>x. x \<noteq> a \<longrightarrow> sector_of s' x = sector_of s x \<and> m_thing (node s' x) = m_thing (node s x))"
proof -
  have fs: "find_secnode (node s) R (sector_list s) = Some None"
    using t n find_secnode_path [of "node s" "sector_list s" as R]
    by (simp add: thread_ok_def sector_of_def)
  obtain p' s1 where a1: "P_AddSecnode R (sl_tmthing s) (sector_list s) s = Some (p', s1)"
    and s': "s' = s1\<lparr>sector_list := p'\<rparr>"
    using st by (auto simp: add_step_def split: option.splits)
  obtain a where p': "p' = Some a" and tk: "taken a s s1"
    and ad: "added R (sl_tmthing s) (sector_list s) a s s1"
    using P_AddSecnode_new [OF fs a1] by blast
  have pth: "path m_tnext (node s) (sector_list s) as" and lnk: "linked m_tprev (node s) None as"
    and das: "distinct as" using t by (auto simp: thread_ok_def)
  have pfl: "path m_snext (node s) (headsecnode s) fl" and dfl: "distinct fl"
    and bas: "\<forall>a\<in>set as. a < brk s" and bfl: "\<forall>f\<in>set fl. f < brk s \<and> f \<notin> set as"
    using f by (auto simp: pool_ok_def)
  have ana: "a \<notin> set as"
  proof (cases "headsecnode s")
    case None then show ?thesis using tk bas by (auto simp: taken_def)
  next
    case (Some b)
    then have "b = a" using tk by (auto simp: taken_def)
    then have "a \<in> set fl" using pfl Some by (auto simp: path_Some)
    then show ?thesis using bfl by auto
  qed
  have hd: "sector_list s \<noteq> Some a" using pth ana by (auto simp: path_Some)
  have n1: "node s' = node s1" by (simp add: s')
  have old: "\<And>x. x \<noteq> a \<Longrightarrow>
           m_sector (node s1 x) = m_sector (node s x) \<and> m_thing (node s1 x) = m_thing (node s x)
         \<and> m_tnext (node s1 x) = m_tnext (node s x) \<and> m_snext (node s1 x) = m_snext (node s x)
         \<and> m_tprev (node s1 x) = (if Some x = sector_list s then Some a else m_tprev (node s x))"
    using ad by (simp add: added_def)
  have new: "m_sector (node s1 a) = R" "m_thing (node s1 a) = sl_tmthing s"
    "m_tnext (node s1 a) = sector_list s" "m_tprev (node s1 a) = None"
    using ad hd by (simp_all add: added_def)
  have oin: "\<And>x. x \<in> set as \<Longrightarrow> x \<noteq> a" using ana by auto
  have P: "path m_tnext (node s1) (sector_list s) as = path m_tnext (node s) (sector_list s) as"
    by (rule path_cong) (simp add: old oin)
  have L: "linked m_tprev (node s1) (Some a) as"
  proof (cases as)
    case Nil then show ?thesis by simp
  next
    case (Cons b bs)
    have b: "sector_list s = Some b" "b \<noteq> a" "b \<notin> set bs" using pth Cons ana das by auto
    have bin: "\<And>x. x \<in> set bs \<Longrightarrow> x \<noteq> a \<and> x \<noteq> b" using ana b Cons by auto
    have "linked m_tprev (node s1) (Some b) bs = linked m_tprev (node s) (Some b) bs"
      by (rule linked_cong) (simp add: old bin b)
    then show ?thesis using Cons lnk old [OF b(2)] b(1) by simp
  qed
  have T: "thread_ok s' (a # as)"
    using P L pth das ana new by (simp add: thread_ok_def s' p')
  define fl' where "fl' = tl fl"
  have F: "pool_ok s' (a # as) fl'"
  proof (cases "headsecnode s")
    case None
    then have "fl = []" using pfl by simp
    then show ?thesis using tk None bas by (auto simp: pool_ok_def taken_def s' fl'_def)
  next
    case (Some b)
    then have ba: "b = a" and h1: "headsecnode s1 = m_snext (node s a)" and b1: "brk s1 = brk s"
      using tk by (auto simp: taken_def)
    obtain fs where fl: "fl = a # fs" and pfs: "path m_snext (node s) (m_snext (node s a)) fs"
      using pfl Some ba by (auto simp: path_Some)
    have fin: "\<And>x. x \<in> set fs \<Longrightarrow> x \<noteq> a" using dfl fl by auto
    have "path m_snext (node s1) (m_snext (node s a)) fs = path m_snext (node s) (m_snext (node s a)) fs"
      by (rule path_cong) (simp add: old fin)
    then show ?thesis using pfs fl dfl bas bfl h1 b1 by (auto simp: pool_ok_def s' fl'_def)
  qed
  show ?thesis using ana T F new old by (auto simp: sector_of_def n1)
qed

lemma add_step_build:
  assumes t: "thread_ok s as" and f: "pool_ok s as fl" and th: "sl_tmthing s = Some t"
    and c: "confirmed (sector_of s) (kept s) as W" and st: "add_step R s = Some s'"
  shows "\<exists>as' fl'. thread_ok s' as' \<and> pool_ok s' as' fl'
           \<and> confirmed (sector_of s') (kept s') as' (insert R W)"
proof (cases "find (\<lambda>b. sector_of s b = R) as")
  case None
  obtain a fl' where a: "a \<notin> set as" "thread_ok s' (a # as)" "pool_ok s' (a # as) fl'"
    "sector_of s' a = R" "m_thing (node s' a) = sl_tmthing s"
    "\<forall>x. x \<noteq> a \<longrightarrow> sector_of s' x = sector_of s x \<and> m_thing (node s' x) = m_thing (node s x)"
    using add_step_new [OF t f None st] by blast
  have "confirmed (sector_of s') (kept s') (a # as) (insert R W)"
  proof (rule confirmed_new [where sec' = "sector_of s'" and kp' = "kept s'", OF c None a(1) a(4)])
    show "kept s' a" using a(5) th by (simp add: kept_def)
    fix x assume "x \<in> set as"
    then have "x \<noteq> a" using a(1) by auto
    then show "sector_of s' x = sector_of s x \<and> kept s' x = kept s x" using a(6) by (simp add: kept_def)
  qed
  then show ?thesis using a(2,3) by blast
next
  case (Some a0)
  have s': "s' = poke a0 (\<lambda>n. n\<lparr>m_thing := Some t\<rparr>) s"
    using add_step_found [OF t Some] st th by simp
  have "confirmed (sector_of s') (kept s') as (insert R W)"
    using confirmed_found [OF c Some] by (simp add: s' poke_thing_facts)
  moreover have "thread_ok s' as" "pool_ok s' as fl"
    using t f by (simp_all add: s' poke_thing_thread poke_thing_pool)
  ultimately show ?thesis by blast
qed

lemma add_all_build:
  assumes "thread_ok s as" and "pool_ok s as fl" and "sl_tmthing s = Some t"
    and "confirmed (sector_of s) (kept s) as W" and "add_all Rs s = Some s'"
  shows "\<exists>as' fl'. thread_ok s' as' \<and> pool_ok s' as' fl'
           \<and> confirmed (sector_of s') (kept s') as' (W \<union> set Rs)"
  using assms
proof (induction Rs arbitrary: s as fl W)
  case Nil then show ?case by auto
next
  case (Cons R Rs)
  obtain s1 where s1: "add_step R s = Some s1" and r: "add_all Rs s1 = Some s'"
    using Cons.prems(5) by (auto split: option.splits)
  obtain as1 fl1 where b: "thread_ok s1 as1" "pool_ok s1 as1 fl1"
    "confirmed (sector_of s1) (kept s1) as1 (insert R W)"
    using add_step_build [OF Cons.prems(1-4) s1] by blast
  have "sl_tmthing s1 = Some t" using add_step_scratch(1) [OF s1] Cons.prems(3) by simp
  from Cons.IH [OF b(1,2) this b(3) r] show ?case by simp
qed

lemma add_all_present:
  assumes "thread_ok s as" and "sl_tmthing s = Some t"
    and "confirmed (sector_of s) (kept s) as W" and "set Rs \<subseteq> sector_of s ` set as"
  shows "\<exists>s'. add_all Rs s = Some s' \<and> thread_ok s' as \<and> sector_of s' = sector_of s
           \<and> confirmed (sector_of s') (kept s') as (W \<union> set Rs)"
  using assms
proof (induction Rs arbitrary: s W)
  case Nil then show ?case by auto
next
  case (Cons R Rs)
  have "R \<in> sector_of s ` set as" using Cons.prems(4) by simp
  then obtain a0 where f: "find (\<lambda>b. sector_of s b = R) as = Some a0"
    by (cases "find (\<lambda>b. sector_of s b = R) as") (auto simp: find_None_iff)
  define s1 where "s1 = poke a0 (\<lambda>n. n\<lparr>m_thing := Some t\<rparr>) s"
  have s1: "add_step R s = Some s1"
    using add_step_found [OF Cons.prems(1) f] Cons.prems(2) by (simp add: s1_def)
  have sec: "sector_of s1 = sector_of s" by (simp add: s1_def poke_thing_facts)
  have "\<exists>s'. add_all Rs s1 = Some s' \<and> thread_ok s' as \<and> sector_of s' = sector_of s1
           \<and> confirmed (sector_of s') (kept s') as (insert R W \<union> set Rs)"
  proof (rule Cons.IH)
    show "thread_ok s1 as" using Cons.prems(1) by (simp add: s1_def poke_thing_thread)
    show "sl_tmthing s1 = Some t" using Cons.prems(2) by (simp add: s1_def poke_thing_facts)
    show "confirmed (sector_of s1) (kept s1) as (insert R W)"
      using confirmed_found [OF Cons.prems(3) f] by (simp add: s1_def poke_thing_facts)
    show "set Rs \<subseteq> sector_of s1 ` set as" using Cons.prems(4) sec by simp
  qed
  then show ?case using s1 sec by auto
qed

lemma P_CreateSecNodeList_unfold:
  assumes "path m_tnext (node s) (sector_list s) as"
  shows "P_CreateSecNodeList e mo thing x y s =
    (case add_all (wanted e mo thing x y) (prepared mo thing x y (cleared as s)) of
       None \<Rightarrow> None
     | Some s5 \<Rightarrow>
        (case delete_unused (sector_list s5) s5 of
           None \<Rightarrow> None
         | Some s6 \<Rightarrow> Some (restored mo s s6)))"
proof -
  let ?s2 = "prepared mo thing x y (cleared as s)"
  let ?tb = "box_around x y (pickupradius (info (mo thing)))"
  let ?W = "concat (map (touched e ?tb) (lines_in_cells e (line_cells e ?tb)))"
  have c: "clear_m_things (sector_list s) s = Some (cleared as s)"
    using assms by (rule clear_m_things_path)
  have tb: "sl_tmbbox ?s2 = ?tb" by (simp add: prepared_def)
  have sv: "sl_tmthing (cleared as s) = sl_tmthing s" "sl_tmx (cleared as s) = sl_tmx s"
    "sl_tmy (cleared as s) = sl_tmy s" by (simp_all add: cleared_def)
  have g: "get_sectors_lines e (lines_in_cells e (line_cells e ?tb)) ?s2 = add_all ?W ?s2"
    using get_sectors_lines_add_all [of e _ ?s2] tb by simp
  have w: "add_all (wanted e mo thing x y) ?s2
           = (case add_all ?W ?s2 of None \<Rightarrow> None
              | Some s3 \<Rightarrow> add_step (subsector_sector (mo thing)) s3)"
    by (simp add: wanted_def Let_def add_all_append split: option.splits)
  have last: "\<And>s3. add_all ?W ?s2 = Some s3 \<Longrightarrow>
      add_step (subsector_sector (mo thing)) s3
      = (case P_AddSecnode (subsector_sector (mo thing)) (Some thing) (sector_list s3) s3 of
           None \<Rightarrow> None | Some (p, s4) \<Rightarrow> Some (s4\<lparr>sector_list := p\<rparr>))"
  proof -
    fix s3 assume "add_all ?W ?s2 = Some s3"
    then have "sl_tmthing s3 = Some thing" using add_all_scratch [of ?W ?s2 s3] by (simp add: prepared_def)
    then show "add_step (subsector_sector (mo thing)) s3
      = (case P_AddSecnode (subsector_sector (mo thing)) (Some thing) (sector_list s3) s3 of
           None \<Rightarrow> None | Some (p, s4) \<Rightarrow> Some (s4\<lparr>sector_list := p\<rparr>))"
      by (simp add: add_step_def)
  qed
  have "P_CreateSecNodeList e mo thing x y s =
     (case add_all ?W ?s2 of
          None \<Rightarrow> None
        | Some s3 \<Rightarrow>
           (case P_AddSecnode (subsector_sector (mo thing)) (Some thing) (sector_list s3) s3 of
              None \<Rightarrow> None
            | Some (p, s4) \<Rightarrow>
               (case delete_unused p (s4\<lparr>sector_list := p\<rparr>) of
                  None \<Rightarrow> None
                | Some s6 \<Rightarrow> Some (restored mo s s6))))"
    unfolding P_CreateSecNodeList_def Let_def c option.case
    unfolding prepared_def [symmetric, unfolded Let_def] tb g restored_def Let_def sv
    by (simp split: option.splits)
  also have "\<dots> = (case add_all (wanted e mo thing x y) ?s2 of
       None \<Rightarrow> None
     | Some s5 \<Rightarrow>
        (case delete_unused (sector_list s5) s5 of
           None \<Rightarrow> None
         | Some s6 \<Rightarrow> Some (restored mo s s6)))"
    unfolding w by (auto simp: last split: option.splits)
  finally show ?thesis .
qed

lemma prepared_cleared:
  "thread_ok (prepared mo thing x y (cleared as s)) bs = thread_ok s bs"
  "pool_ok (prepared mo thing x y (cleared as s)) bs fl = pool_ok s bs fl"
  "sl_tmthing (prepared mo thing x y (cleared as s)) = Some thing"
  "sector_of (prepared mo thing x y (cleared as s)) = sector_of s"
  "a \<in> set as \<Longrightarrow> \<not> kept (prepared mo thing x y (cleared as s)) a"
proof -
  let ?s = "prepared mo thing x y (cleared as s)"
  have n: "\<And>a. m_tnext (node ?s a) = m_tnext (node s a)" "\<And>a. m_tprev (node ?s a) = m_tprev (node s a)"
    "\<And>a. m_snext (node ?s a) = m_snext (node s a)"
    by (simp_all add: prepared_def cleared_def)
  have f: "sector_list ?s = sector_list s" "headsecnode ?s = headsecnode s" "brk ?s = brk s"
    by (simp_all add: prepared_def cleared_def)
  have "path m_tnext (node ?s) (sector_list s) bs = path m_tnext (node s) (sector_list s) bs"
    by (rule path_cong) (simp add: n)
  moreover have "linked m_tprev (node ?s) None bs = linked m_tprev (node s) None bs"
    by (rule linked_cong) (simp add: n)
  ultimately show "thread_ok ?s bs = thread_ok s bs" by (simp add: thread_ok_def f)
  have "path m_snext (node ?s) (headsecnode s) fl = path m_snext (node s) (headsecnode s) fl"
    by (rule path_cong) (simp add: n)
  then show "pool_ok ?s bs fl = pool_ok s bs fl" by (simp add: pool_ok_def f)
  show "sl_tmthing ?s = Some thing" by (simp add: prepared_def)
  show "sector_of ?s = sector_of s" by (simp add: sector_of_def prepared_def cleared_def fun_eq_iff)
  show "a \<in> set as \<Longrightarrow> \<not> kept ?s a" by (simp add: kept_def prepared_def cleared_def)
qed

lemma restored_facts:
  "node (restored mo s s6) = node s6" "sector_list (restored mo s s6) = sector_list s6"
  by (simp_all add: restored_def Let_def split: option.splits)

lemma restored_thread:
  "thread_ok (restored mo s s6) as = thread_ok s6 as" "sector_of (restored mo s s6) = sector_of s6"
  by (simp_all add: thread_ok_def sector_of_def fun_eq_iff restored_facts)

lemma delete_unused_thread:
  assumes t: "thread_ok s as"
  shows "\<exists>s'. delete_unused (sector_list s) s = Some s' \<and> thread_ok s' (filter (kept s) as)
           \<and> sector_of s' = sector_of s \<and> kept s' = kept s"
proof -
  have "\<exists>s'. delete_unused (sector_list s) s = Some s'
           \<and> path m_tnext (node s') (sector_list s') ([] @ filter (kept s) as)
           \<and> linked m_tprev (node s') None ([] @ filter (kept s) as)
           \<and> (\<forall>x. m_sector (node s' x) = m_sector (node s x) \<and> m_thing (node s' x) = m_thing (node s x))"
    by (rule delete_unused_path) (use t in \<open>simp_all add: thread_ok_def\<close>)
  then obtain s' where "delete_unused (sector_list s) s = Some s'"
    "path m_tnext (node s') (sector_list s') (filter (kept s) as)"
    "linked m_tprev (node s') None (filter (kept s) as)"
    "\<forall>x. m_sector (node s' x) = m_sector (node s x) \<and> m_thing (node s' x) = m_thing (node s x)"
    by auto
  moreover have "distinct (filter (kept s) as)" using t by (simp add: thread_ok_def)
  ultimately show ?thesis by (auto simp: thread_ok_def sector_of_def kept_def fun_eq_iff)
qed

lemma P_CreateSecNodeList_settles:
  assumes t: "thread_ok s as" and f: "pool_ok s as fl"
    and r: "P_CreateSecNodeList e mo thing x y s = Some s1"
  shows "\<exists>as1. settled_thread s1 as1 (set (wanted e mo thing x y))"
proof -
  let ?s2 = "prepared mo thing x y (cleared as s)"
  have pth: "path m_tnext (node s) (sector_list s) as" using t by (simp add: thread_ok_def)
  obtain s5 s6 where a: "add_all (wanted e mo thing x y) ?s2 = Some s5"
    and d: "delete_unused (sector_list s5) s5 = Some s6" and s1: "s1 = restored mo s s6"
    using r unfolding P_CreateSecNodeList_unfold [OF pth] by (auto split: option.splits)
  have c0: "confirmed (sector_of ?s2) (kept ?s2) as {}"
    by (simp add: confirmed_def prepared_cleared)
  obtain as5 fl5 where b: "thread_ok s5 as5" "pool_ok s5 as5 fl5"
    "confirmed (sector_of s5) (kept s5) as5 ({} \<union> set (wanted e mo thing x y))"
    using add_all_build [OF _ _ _ c0 a, of fl thing] t f by (auto simp: prepared_cleared)
  obtain s6' where d': "delete_unused (sector_list s5) s5 = Some s6'"
    "thread_ok s6' (filter (kept s5) as5)" "sector_of s6' = sector_of s5"
    using delete_unused_thread [OF b(1)] by blast
  have s6: "s6' = s6" using d d' by simp
  have das: "distinct as5" using b(1) by (simp add: thread_ok_def)
  have k: "distinct (map (sector_of s5) (filter (kept s5) as5))"
    "sector_of s5 ` set (filter (kept s5) as5) = set (wanted e mo thing x y)"
    using confirmed_kept [OF b(3) das] by simp_all
  have "thread_ok s1 (filter (kept s5) as5)" "sector_of s1 = sector_of s5"
    using d'(2,3) by (simp_all add: s1 s6 restored_thread)
  then have "settled_thread s1 (filter (kept s5) as5) (set (wanted e mo thing x y))"
    using k by (simp add: settled_thread_def)
  then show ?thesis by blast
qed

lemma P_CreateSecNodeList_settled:
  assumes st: "settled_thread s as (set (wanted e mo thing x y))"
  shows "\<exists>s2. P_CreateSecNodeList e mo thing x y s = Some s2 \<and> thread_ok s2 as
           \<and> sector_of s2 = sector_of s"
proof -
  let ?s2 = "prepared mo thing x y (cleared as s)"
  have t: "thread_ok s as" and ds: "distinct (map (sector_of s) as)"
    and W: "sector_of s ` set as = set (wanted e mo thing x y)"
    using st by (simp_all add: settled_thread_def)
  have pth: "path m_tnext (node s) (sector_list s) as" using t by (simp add: thread_ok_def)
  have c0: "confirmed (sector_of ?s2) (kept ?s2) as {}"
    by (simp add: confirmed_def prepared_cleared)
  have "\<exists>s'. add_all (wanted e mo thing x y) ?s2 = Some s' \<and> thread_ok s' as
           \<and> sector_of s' = sector_of ?s2
           \<and> confirmed (sector_of s') (kept s') as ({} \<union> set (wanted e mo thing x y))"
    by (rule add_all_present [OF _ _ c0]) (use t W in \<open>simp_all add: prepared_cleared\<close>)
  then obtain s5 where a: "add_all (wanted e mo thing x y) ?s2 = Some s5" and t5: "thread_ok s5 as"
    and sec5: "sector_of s5 = sector_of s"
    and c5: "confirmed (sector_of s5) (kept s5) as (set (wanted e mo thing x y))"
    by (auto simp: prepared_cleared)
  have all: "\<And>a. a \<in> set as \<Longrightarrow> kept s5 a"
  proof -
    fix a assume a: "a \<in> set as"
    have "find (\<lambda>b. sector_of s b = sector_of s a) as = Some a" using ds a by (rule find_distinct_map)
    moreover have "sector_of s a \<in> set (wanted e mo thing x y)" using W a by blast
    ultimately show "kept s5 a" using c5 a by (simp add: confirmed_def sec5)
  qed
  then have fl: "filter (kept s5) as = as" by (simp add: filter_id_conv)
  obtain s6 where d: "delete_unused (sector_list s5) s5 = Some s6"
    "thread_ok s6 as" "sector_of s6 = sector_of s5"
    using delete_unused_thread [OF t5] fl by auto
  have "P_CreateSecNodeList e mo thing x y s = Some (restored mo s s6)"
    unfolding P_CreateSecNodeList_unfold [OF pth] using a d(1) by simp
  moreover have "thread_ok (restored mo s s6) as" "sector_of (restored mo s s6) = sector_of s"
    using d(2,3) sec5 by (simp_all add: restored_thread)
  ultimately show ?thesis by blast
qed

text \<open>
  C8.  Let \<open>P_CreateSecNodeList\<close> be called for an object at a point, in a memory whose
  thread at \<open>sector_list\<close> and whose free list are in order, and let the call return.  Then
  a second call for the same object at the same point returns as well, and the sectors
  along the thread at \<open>sector_list\<close> are the same after both calls, node by node; they are
  the sectors of the lines that cross the box of the object and the sector of its
  subsector.
\<close>

theorem P_CreateSecNodeList_idempotent:
  assumes "thread_ok s as" and "pool_ok s as fl"
    and "P_CreateSecNodeList e mo thing x y s = Some s1"
  shows "\<exists>s2 ss. P_CreateSecNodeList e mo thing x y s1 = Some s2
           \<and> touching_sectors (node s1) (sector_list s1) = Some ss
           \<and> touching_sectors (node s2) (sector_list s2) = Some ss
           \<and> set ss = set (wanted e mo thing x y)"
proof -
  obtain as1 where st: "settled_thread s1 as1 (set (wanted e mo thing x y))"
    using P_CreateSecNodeList_settles [OF assms] by blast
  obtain s2 where s2: "P_CreateSecNodeList e mo thing x y s1 = Some s2" "thread_ok s2 as1"
    "sector_of s2 = sector_of s1"
    using P_CreateSecNodeList_settled [OF st] by blast
  have "touching_sectors (node s1) (sector_list s1) = Some (map (sector_of s1) as1)"
    using st touching_sectors_path [of "node s1" "sector_list s1" as1]
    by (simp add: settled_thread_def thread_ok_def sector_of_def [abs_def])
  moreover have "touching_sectors (node s2) (sector_list s2) = Some (map (sector_of s2) as1)"
    using s2(2) touching_sectors_path [of "node s2" "sector_list s2" as1]
    by (simp add: thread_ok_def sector_of_def [abs_def])
  moreover have "set (map (sector_of s1) as1) = set (wanted e mo thing x y)"
    using st by (simp add: settled_thread_def)
  ultimately show ?thesis using s2 by simp
qed

text \<open>
  The theorem at work: the thread holds one node for sector 2, no line is near, and the
  object stands in sector 0.  Both calls leave a thread of one node, for sector 0.
\<close>

theorem P_CreateSecNodeList_idempotent_witness:
  "thread_ok stale_nodes [0] \<and> pool_ok stale_nodes [0] []
   \<and> Option.bind (P_CreateSecNodeList base_env (\<lambda>_. base_mobj) 5 0 0 stale_nodes)
        (\<lambda>s1. touching_sectors (node s1) (sector_list s1)) = Some [0]
   \<and> Option.bind (P_CreateSecNodeList base_env (\<lambda>_. base_mobj) 5 0 0 stale_nodes)
        (\<lambda>s1. Option.bind (P_CreateSecNodeList base_env (\<lambda>_. base_mobj) 5 0 0 s1)
           (\<lambda>s2. touching_sectors (node s2) (sector_list s2))) = Some [0]"
proof -
  have t: "thread_ok stale_nodes [0]" by (simp add: thread_ok_def stale_nodes_def)
  have f: "pool_ok stale_nodes [0] []" by (simp add: pool_ok_def stale_nodes_def)
  have one: "Option.bind (P_CreateSecNodeList base_env (\<lambda>_. base_mobj) 5 0 0 stale_nodes)
        (\<lambda>s1. touching_sectors (node s1) (sector_list s1)) = Some [0]"
    by code_simp
  then obtain s1 where s1: "P_CreateSecNodeList base_env (\<lambda>_. base_mobj) 5 0 0 stale_nodes = Some s1"
    and ss1: "touching_sectors (node s1) (sector_list s1) = Some [0]"
    by (auto simp: bind_eq_Some_conv)
  obtain s2 ss where "P_CreateSecNodeList base_env (\<lambda>_. base_mobj) 5 0 0 s1 = Some s2"
    "touching_sectors (node s1) (sector_list s1) = Some ss"
    "touching_sectors (node s2) (sector_list s2) = Some ss"
    using P_CreateSecNodeList_idempotent [OF t f s1] by blast
  then have "Option.bind (P_CreateSecNodeList base_env (\<lambda>_. base_mobj) 5 0 0 stale_nodes)
        (\<lambda>s1. Option.bind (P_CreateSecNodeList base_env (\<lambda>_. base_mobj) 5 0 0 s1)
           (\<lambda>s2. touching_sectors (node s2) (sector_list s2))) = Some [0]"
    using s1 ss1 by simp
  then show ?thesis using t f one by blast
qed

section \<open>The two threads of a node\<close>

text \<open>
  \<open>threads_ok\<close> holds of the memory again after a node has been put in front of the threads
  of an object and of a sector, after a node has been taken out of both, and after a node has
  been confirmed; it implies \<open>consistent\<close>.
\<close>

lemma threads_ok_live:
  assumes "threads_ok s heads tth sth fl" and "a \<in> set (tth E)"
  shows "m_thing (node s a) = None \<or> m_thing (node s a) = Some E"
    and "a \<in> set (sth (m_sector (node s a)))" and "a < brk s" and "a \<notin> set fl"
  using assms by (auto simp: threads_ok_def tthread_ok_def free_ok_def)

lemma threads_ok_touching:
  assumes "threads_ok s heads tth sth fl" and "a \<in> set (sth R)"
  shows "m_sector (node s a) = R" and "\<exists>E. a \<in> set (tth E)"
  using assms by (auto simp: threads_ok_def sthread_ok_def)

lemma threads_ok_disjoint:
  assumes ok: "threads_ok s heads tth sth fl"
  shows "a \<in> set (tth E) \<Longrightarrow> a \<in> set (tth E') \<Longrightarrow> E = E'"
    and "a \<in> set (sth R) \<Longrightarrow> a \<in> set (sth R') \<Longrightarrow> R = R'"
proof -
  show "a \<in> set (tth E) \<Longrightarrow> a \<in> set (tth E') \<Longrightarrow> E = E'"
    using ok unfolding threads_ok_def by blast
  show "a \<in> set (sth R) \<Longrightarrow> a \<in> set (sth R') \<Longrightarrow> R = R'"
    using threads_ok_touching(1) [OF ok, of a R] threads_ok_touching(1) [OF ok, of a R'] by simp
qed

lemma threads_ok_consistent:
  assumes ok: "threads_ok s heads tth sth fl"
  shows "consistent s heads"
  unfolding consistent_def
proof (intro allI impI)
  fix a E R assume f: "m_thing (node s a) = Some E \<and> m_sector (node s a) = R"
  have t: "reachable m_tnext (node s) (heads E) a = (a \<in> set (tth E))"
    using ok by (intro reachable_path) (simp add: threads_ok_def tthread_ok_def)
  have s: "reachable m_snext (node s) (touching_thinglist s R) a = (a \<in> set (sth R))"
    using ok by (intro reachable_path) (simp add: threads_ok_def sthread_ok_def)
  have "(a \<in> set (tth E)) = (a \<in> set (sth R))"
  proof
    assume "a \<in> set (tth E)"
    then show "a \<in> set (sth R)" using threads_ok_live(2) [OF ok] f by auto
  next
    assume "a \<in> set (sth R)"
    then obtain E' where "a \<in> set (tth E')" using threads_ok_touching(2) [OF ok] by blast
    then show "a \<in> set (tth E)" using threads_ok_live(1) [OF ok, of a E'] f by auto
  qed
  then show "reachable m_tnext (node s) (heads E) a
             = reachable m_snext (node s) (touching_thinglist s R) a"
    by (simp only: t s)
qed

lemma threads_ok_added:
  assumes ok: "threads_ok s heads tth sth fl" and tk: "taken a s s'"
    and ad: "added R (Some E) (heads E) a s s'"
  shows "threads_ok s' (heads(E := Some a)) (tth(E := a # tth E)) (sth(R := a # sth R)) (tl fl)"
proof -
  have T: "\<And>E'. path m_tnext (node s) (heads E') (tth E')"
    "\<And>E'. linked m_tprev (node s) None (tth E')" "\<And>E'. distinct (tth E')"
    using ok by (simp_all add: threads_ok_def tthread_ok_def)
  have S: "\<And>R'. path m_snext (node s) (touching_thinglist s R') (sth R')"
    "\<And>R'. linked m_sprev (node s) None (sth R')" "\<And>R'. distinct (sth R')"
    using ok by (simp_all add: threads_ok_def sthread_ok_def)
  have F: "path m_snext (node s) (headsecnode s) fl" "distinct fl"
    "\<And>f. f \<in> set fl \<Longrightarrow> f < brk s" "\<And>f E'. f \<in> set fl \<Longrightarrow> f \<notin> set (tth E')"
    "\<And>E' x. x \<in> set (tth E') \<Longrightarrow> x < brk s"
    using ok by (auto simp: threads_ok_def free_ok_def)
  have fresh_t: "\<And>E'. a \<notin> set (tth E')"
  proof (cases "headsecnode s")
    case None
    then have "a = brk s" using tk by (simp add: taken_def)
    then show "\<And>E'. a \<notin> set (tth E')" using F(5) by auto
  next
    case (Some b)
    then have "headsecnode s = Some a" using tk by (auto simp: taken_def)
    then have "a \<in> set fl" using F(1) by (simp add: path_head_in)
    then show "\<And>E'. a \<notin> set (tth E')" using F(4) by simp
  qed
  have fresh_s: "\<And>R'. a \<notin> set (sth R')"
    using threads_ok_touching(2) [OF ok] fresh_t by blast
  have hE: "heads E \<noteq> Some a" using T(1) [of E] fresh_t [of E] path_head_in by metis
  have hR: "touching_thinglist s R \<noteq> Some a" using S(1) [of R] fresh_s [of R] path_head_in by metis
  have tl': "touching_thinglist s' = (touching_thinglist s)(R := Some a)"
    using ad by (simp add: added_def)
  have na: "m_sector (node s' a) = R" "m_thing (node s' a) = Some E"
    "m_tnext (node s' a) = heads E" "m_snext (node s' a) = touching_thinglist s R"
    "m_tprev (node s' a) = None" "m_sprev (node s' a) = None"
    using ad hE hR by (simp_all add: added_def)
  have old: "\<And>x. x \<noteq> a \<Longrightarrow>
           m_sector (node s' x) = m_sector (node s x) \<and> m_thing (node s' x) = m_thing (node s x)
         \<and> m_tnext (node s' x) = m_tnext (node s x) \<and> m_snext (node s' x) = m_snext (node s x)
         \<and> m_tprev (node s' x) = (if Some x = heads E then Some a else m_tprev (node s x))
         \<and> m_sprev (node s' x) = (if Some x = touching_thinglist s R then Some a else m_sprev (node s x))"
    using ad by (simp add: added_def)
  have tin: "\<And>x E'. x \<in> set (tth E') \<Longrightarrow> x \<noteq> a" using fresh_t by auto
  have sin: "\<And>x R'. x \<in> set (sth R') \<Longrightarrow> x \<noteq> a" using fresh_s by auto
  have tt: "\<And>E'. tthread_ok s' (heads(E := Some a)) (tth(E := a # tth E)) (sth(R := a # sth R)) E'"
  proof -
    fix E'
    have mem: "\<And>x. x \<in> set (tth E') \<Longrightarrow>
        (m_thing (node s' x) = None \<or> m_thing (node s' x) = Some E')
        \<and> x \<in> set ((sth(R := a # sth R)) (m_sector (node s' x)))"
    proof -
      fix x assume x: "x \<in> set (tth E')"
      have "m_thing (node s x) = None \<or> m_thing (node s x) = Some E'" "x \<in> set (sth (m_sector (node s x)))"
        using threads_ok_live(1,2) [OF ok x] by simp_all
      then show "(m_thing (node s' x) = None \<or> m_thing (node s' x) = Some E')
        \<and> x \<in> set ((sth(R := a # sth R)) (m_sector (node s' x)))"
        using old [OF tin [OF x]] by auto
    qed
    show "tthread_ok s' (heads(E := Some a)) (tth(E := a # tth E)) (sth(R := a # sth R)) E'"
    proof (cases "E' = E")
      case True
      have "path m_tnext (node s') (Some a) (a # tth E) \<and> linked m_tprev (node s') None (a # tth E)"
        using T(1) [of E] T(2) [of E] T(3) [of E] fresh_t [of E] na(3) na(5)
      proof (rule push)
        fix x assume "x \<in> set (tth E)"
        then show "m_tnext (node s' x) = m_tnext (node s x)
          \<and> m_tprev (node s' x) = (if Some x = heads E then Some a else m_tprev (node s x))"
          using old [OF tin] by simp
      qed
      then show ?thesis using True T(3) [of E] fresh_t [of E] na mem [of _] 
        by (auto simp: tthread_ok_def)
    next
      case False
      have nh: "\<And>x. x \<in> set (tth E') \<Longrightarrow> Some x \<noteq> heads E"
      proof
        fix x assume x: "x \<in> set (tth E')" and "Some x = heads E"
        then have "x \<in> set (tth E)" using T(1) [of E] path_head_in by metis
        then show False using threads_ok_disjoint(1) [OF ok x] False by simp
      qed
      have "path m_tnext (node s') (heads E') (tth E') \<and> linked m_tprev (node s') None (tth E')"
        using T(1) [of E'] T(2) [of E']
      proof (rule keep)
        fix x assume x: "x \<in> set (tth E')"
        show "m_tnext (node s' x) = m_tnext (node s x) \<and> m_tprev (node s' x) = m_tprev (node s x)"
          using old [OF tin [OF x]] nh [OF x] by simp
      qed
      then show ?thesis using False T(3) [of E'] mem by (simp add: tthread_ok_def)
    qed
  qed
  have ss: "\<And>R'. sthread_ok s' (tth(E := a # tth E)) (sth(R := a # sth R)) R'"
  proof -
    fix R'
    have mem: "\<And>x. x \<in> set (sth R') \<Longrightarrow>
        m_sector (node s' x) = R' \<and> (\<exists>E'. x \<in> set ((tth(E := a # tth E)) E'))"
    proof -
      fix x assume x: "x \<in> set (sth R')"
      obtain E' where "x \<in> set (tth E')" using threads_ok_touching(2) [OF ok x] by blast
      then have "x \<in> set ((tth(E := a # tth E)) E')" by auto
      moreover have "m_sector (node s' x) = R'"
        using threads_ok_touching(1) [OF ok x] old [OF sin [OF x]] by simp
      ultimately show "m_sector (node s' x) = R' \<and> (\<exists>E'. x \<in> set ((tth(E := a # tth E)) E'))" by blast
    qed
    show "sthread_ok s' (tth(E := a # tth E)) (sth(R := a # sth R)) R'"
    proof (cases "R' = R")
      case True
      have "path m_snext (node s') (Some a) (a # sth R) \<and> linked m_sprev (node s') None (a # sth R)"
        using S(1) [of R] S(2) [of R] S(3) [of R] fresh_s [of R] na(4) na(6)
      proof (rule push)
        fix x assume "x \<in> set (sth R)"
        then show "m_snext (node s' x) = m_snext (node s x)
          \<and> m_sprev (node s' x) = (if Some x = touching_thinglist s R then Some a else m_sprev (node s x))"
          using old [OF sin] by simp
      qed
      moreover have "\<exists>E'. a \<in> set ((tth(E := a # tth E)) E')" by (rule exI [of _ E]) simp
      ultimately show ?thesis using True S(3) [of R] fresh_s [of R] na(1) mem
        by (auto simp: sthread_ok_def tl')
    next
      case False
      have nh: "\<And>x. x \<in> set (sth R') \<Longrightarrow> Some x \<noteq> touching_thinglist s R"
      proof
        fix x assume x: "x \<in> set (sth R')" and "Some x = touching_thinglist s R"
        then have "x \<in> set (sth R)" using S(1) [of R] path_head_in by metis
        then show False using threads_ok_disjoint(2) [OF ok x] False by simp
      qed
      have "path m_snext (node s') (touching_thinglist s R') (sth R') \<and> linked m_sprev (node s') None (sth R')"
        using S(1) [of R'] S(2) [of R']
      proof (rule keep)
        fix x assume x: "x \<in> set (sth R')"
        show "m_snext (node s' x) = m_snext (node s x) \<and> m_sprev (node s' x) = m_sprev (node s x)"
          using old [OF sin [OF x]] nh [OF x] by simp
      qed
      then show ?thesis using False S(3) [of R'] mem by (simp add: sthread_ok_def tl')
    qed
  qed
  have ff: "free_ok s' (tth(E := a # tth E)) (tl fl)"
  proof (cases "headsecnode s")
    case None
    then have "fl = []" using F(1) by simp
    moreover have "brk s' = Suc (brk s)" "headsecnode s' = None" "a = brk s"
      using tk None by (simp_all add: taken_def)
    ultimately show ?thesis using F(5) by (auto simp: free_ok_def less_Suc_eq)
  next
    case (Some b)
    then have h: "headsecnode s = Some a" "headsecnode s' = m_snext (node s a)" "brk s' = brk s"
      using tk by (auto simp: taken_def)
    obtain fs where fl: "fl = a # fs" and pfs: "path m_snext (node s) (m_snext (node s a)) fs"
      using F(1) h by (auto simp: path_Some)
    have fin: "\<And>x. x \<in> set fs \<Longrightarrow> x \<noteq> a" using F(2) fl by auto
    have "path m_snext (node s') (m_snext (node s a)) fs = path m_snext (node s) (m_snext (node s a)) fs"
      by (rule path_cong) (simp add: old fin)
    then show ?thesis using pfs fl F(2) F(3) F(4) F(5) h fin by (auto simp: free_ok_def)
  qed
  have dd: "\<forall>E1 E2 x. x \<in> set ((tth(E := a # tth E)) E1) \<longrightarrow> x \<in> set ((tth(E := a # tth E)) E2) \<longrightarrow> E1 = E2"
  proof (intro allI impI)
    fix E1 E2 x
    assume 1: "x \<in> set ((tth(E := a # tth E)) E1)" and 2: "x \<in> set ((tth(E := a # tth E)) E2)"
    show "E1 = E2"
    proof (cases "x = a")
      case True
      then have "E1 = E" "E2 = E" using 1 2 fresh_t by (auto split: if_splits)
      then show ?thesis by simp
    next
      case False
      then have "x \<in> set (tth E1)" "x \<in> set (tth E2)" using 1 2 by (auto split: if_splits)
      then show ?thesis by (rule threads_ok_disjoint(1) [OF ok])
    qed
  qed
  show ?thesis unfolding threads_ok_def using tt ss ff dd by blast
qed

lemma threads_ok_removed:
  assumes ok: "threads_ok s heads tth sth fl" and aE: "a \<in> set (tth E)"
    and rm: "removed a s s'" and R: "R = m_sector (node s a)"
  shows "threads_ok s' (heads(E := if heads E = Some a then m_tnext (node s a) else heads E))
           (tth(E := remove1 a (tth E))) (sth(R := remove1 a (sth R))) (a # fl)"
proof -
  let ?tth = "tth(E := remove1 a (tth E))" and ?sth = "sth(R := remove1 a (sth R))"
  let ?heads = "heads(E := if heads E = Some a then m_tnext (node s a) else heads E)"
  have T: "\<And>E'. path m_tnext (node s) (heads E') (tth E')"
    "\<And>E'. linked m_tprev (node s) None (tth E')" "\<And>E'. distinct (tth E')"
    using ok by (simp_all add: threads_ok_def tthread_ok_def)
  have S: "\<And>R'. path m_snext (node s) (touching_thinglist s R') (sth R')"
    "\<And>R'. linked m_sprev (node s) None (sth R')" "\<And>R'. distinct (sth R')"
    using ok by (simp_all add: threads_ok_def sthread_ok_def)
  have F: "path m_snext (node s) (headsecnode s) fl" "distinct fl"
    "\<And>f. f \<in> set fl \<Longrightarrow> f < brk s" "\<And>f E'. f \<in> set fl \<Longrightarrow> f \<notin> set (tth E')"
    "\<And>E' x. x \<in> set (tth E') \<Longrightarrow> x < brk s"
    using ok by (auto simp: threads_ok_def free_ok_def)
  have aR: "a \<in> set (sth R)" using threads_ok_live(2) [OF ok aE] R by simp
  have tl': "touching_thinglist s' =
         (if m_sprev (node s a) = None then (touching_thinglist s)(R := m_snext (node s a))
          else touching_thinglist s)"
    using rm R by (simp add: removed_def)
  have same: "\<And>x. m_sector (node s' x) = m_sector (node s x)" "\<And>x. m_thing (node s' x) = m_thing (node s x)"
    using rm by (simp_all add: removed_def)
  have hs: "headsecnode s' = Some a" "m_snext (node s' a) = headsecnode s" "brk s' = brk s"
    using rm by (simp_all add: removed_def)
  have old: "\<And>x. x \<noteq> a \<Longrightarrow>
           m_tnext (node s' x) = (if Some x = m_tprev (node s a) then m_tnext (node s a) else m_tnext (node s x))"
    "\<And>x. x \<noteq> a \<Longrightarrow>
           m_tprev (node s' x) = (if Some x = m_tnext (node s a) then m_tprev (node s a) else m_tprev (node s x))"
    "\<And>x. x \<noteq> a \<Longrightarrow>
           m_snext (node s' x) = (if Some x = m_sprev (node s a) then m_snext (node s a) else m_snext (node s x))"
    "\<And>x. x \<noteq> a \<Longrightarrow>
           m_sprev (node s' x) = (if Some x = m_snext (node s a) then m_sprev (node s a) else m_sprev (node s x))"
    using rm by (simp_all add: removed_def)
  have tp: "m_tprev (node s a) = None \<or> m_tprev (node s a) \<in> Some ` set (tth E)"
    using linked_prev_in [OF T(2) aE] .
  have tn: "m_tnext (node s a) = None \<or> m_tnext (node s a) \<in> Some ` set (tth E)"
    using path_next_in [OF T(1) aE] .
  have sp: "m_sprev (node s a) = None \<or> m_sprev (node s a) \<in> Some ` set (sth R)"
    using linked_prev_in [OF S(2) aR] .
  have sn: "m_snext (node s a) = None \<or> m_snext (node s a) \<in> Some ` set (sth R)"
    using path_next_in [OF S(1) aR] .
  have otherT: "\<And>x E'. E' \<noteq> E \<Longrightarrow> x \<in> set (tth E') \<Longrightarrow>
      x \<noteq> a \<and> Some x \<noteq> m_tprev (node s a) \<and> Some x \<noteq> m_tnext (node s a)"
  proof -
    fix x E' assume ne: "E' \<noteq> E" and x: "x \<in> set (tth E')"
    have "x \<notin> set (tth E)" using threads_ok_disjoint(1) [OF ok x, of E] ne by blast
    then show "x \<noteq> a \<and> Some x \<noteq> m_tprev (node s a) \<and> Some x \<noteq> m_tnext (node s a)"
      using aE tp tn by auto
  qed
  have otherS: "\<And>x R'. R' \<noteq> R \<Longrightarrow> x \<in> set (sth R') \<Longrightarrow>
      x \<noteq> a \<and> Some x \<noteq> m_sprev (node s a) \<and> Some x \<noteq> m_snext (node s a)"
  proof -
    fix x R' assume ne: "R' \<noteq> R" and x: "x \<in> set (sth R')"
    have "x \<notin> set (sth R)" using threads_ok_disjoint(2) [OF ok x, of R] ne by blast
    then show "x \<noteq> a \<and> Some x \<noteq> m_sprev (node s a) \<and> Some x \<noteq> m_snext (node s a)"
      using aR sp sn by auto
  qed
  have inT: "\<And>x E'. x \<in> set (?tth E') \<Longrightarrow> x \<in> set (tth E') \<and> x \<noteq> a"
  proof -
    fix x E' assume x: "x \<in> set (?tth E')"
    show "x \<in> set (tth E') \<and> x \<noteq> a"
    proof (cases "E' = E")
      case True then show ?thesis using x T(3) [of E] by auto
    next
      case False then show ?thesis using x otherT [OF False] by auto
    qed
  qed
  have inS: "\<And>x R'. x \<in> set (?sth R') \<Longrightarrow> x \<in> set (sth R') \<and> x \<noteq> a"
  proof -
    fix x R' assume x: "x \<in> set (?sth R')"
    show "x \<in> set (sth R') \<and> x \<noteq> a"
    proof (cases "R' = R")
      case True then show ?thesis using x S(3) [of R] by auto
    next
      case False then show ?thesis using x otherS [OF False] by auto
    qed
  qed
  have backT: "\<And>x E'. x \<in> set (tth E') \<Longrightarrow> x \<noteq> a \<Longrightarrow> x \<in> set (?tth E')" by auto
  have backS: "\<And>x R'. x \<in> set (sth R') \<Longrightarrow> x \<noteq> a \<Longrightarrow> x \<in> set (?sth R')" by auto
  have tt: "\<And>E'. tthread_ok s' ?heads ?tth ?sth E'"
  proof -
    fix E'
    have mem: "\<And>x. x \<in> set (?tth E') \<Longrightarrow>
        (m_thing (node s' x) = None \<or> m_thing (node s' x) = Some E')
        \<and> x \<in> set (?sth (m_sector (node s' x)))"
    proof -
      fix x assume x: "x \<in> set (?tth E')"
      have x': "x \<in> set (tth E')" "x \<noteq> a" using inT [OF x] by simp_all
      have "m_thing (node s x) = None \<or> m_thing (node s x) = Some E'" "x \<in> set (sth (m_sector (node s x)))"
        using threads_ok_live(1,2) [OF ok x'(1)] by simp_all
      then show "(m_thing (node s' x) = None \<or> m_thing (node s' x) = Some E')
        \<and> x \<in> set (?sth (m_sector (node s' x)))"
        using backS [OF _ x'(2)] by (simp only: same)
    qed
    have pl: "path m_tnext (node s') (?heads E') (?tth E') \<and> linked m_tprev (node s') None (?tth E')"
    proof (cases "E' = E")
      case True
      have "path m_tnext (node s') (if heads E = Some a then m_tnext (node s a) else heads E) (remove1 a (tth E))
            \<and> linked m_tprev (node s') None (remove1 a (tth E))"
        using T(1) [of E] T(2) [of E] T(3) [of E] aE
        by (rule unlink) (simp_all add: old)
      then show ?thesis using True by simp
    next
      case False
      have "path m_tnext (node s') (heads E') (tth E') \<and> linked m_tprev (node s') None (tth E')"
        using T(1) [of E'] T(2) [of E']
      proof (rule keep)
        fix x assume x: "x \<in> set (tth E')"
        show "m_tnext (node s' x) = m_tnext (node s x) \<and> m_tprev (node s' x) = m_tprev (node s x)"
          using otherT [OF False x] by (simp add: old)
      qed
      then show ?thesis using False by simp
    qed
    have "distinct (?tth E')" using T(3) by simp
    then show "tthread_ok s' ?heads ?tth ?sth E'" using pl mem unfolding tthread_ok_def by blast
  qed
  have hd: "(m_sprev (node s a) = None) = (touching_thinglist s R = Some a)"
    using S(1) [of R] S(2) [of R] S(3) [of R] aR by (rule linked_head_iff)
  have ss: "\<And>R'. sthread_ok s' ?tth ?sth R'"
  proof -
    fix R'
    have mem: "\<And>x. x \<in> set (?sth R') \<Longrightarrow> m_sector (node s' x) = R' \<and> (\<exists>E'. x \<in> set (?tth E'))"
    proof -
      fix x assume x: "x \<in> set (?sth R')"
      have x': "x \<in> set (sth R')" "x \<noteq> a" using inS [OF x] by simp_all
      obtain E' where "x \<in> set (tth E')" using threads_ok_touching(2) [OF ok x'(1)] by blast
      then have "x \<in> set (?tth E')" using x'(2) by (rule backT)
      moreover have "m_sector (node s' x) = R'" using threads_ok_touching(1) [OF ok x'(1)] by (simp only: same)
      ultimately show "m_sector (node s' x) = R' \<and> (\<exists>E'. x \<in> set (?tth E'))" by blast
    qed
    have pl: "path m_snext (node s') (touching_thinglist s' R') (?sth R') \<and> linked m_sprev (node s') None (?sth R')"
    proof (cases "R' = R")
      case True
      have "path m_snext (node s') (if touching_thinglist s R = Some a then m_snext (node s a) else touching_thinglist s R)
              (remove1 a (sth R))
            \<and> linked m_sprev (node s') None (remove1 a (sth R))"
        using S(1) [of R] S(2) [of R] S(3) [of R] aR
        by (rule unlink) (simp_all add: old)
      moreover have "touching_thinglist s' R
          = (if touching_thinglist s R = Some a then m_snext (node s a) else touching_thinglist s R)"
        using hd by (simp add: tl')
      ultimately show ?thesis using True by simp
    next
      case False
      have "path m_snext (node s') (touching_thinglist s R') (sth R') \<and> linked m_sprev (node s') None (sth R')"
        using S(1) [of R'] S(2) [of R']
      proof (rule keep)
        fix x assume x: "x \<in> set (sth R')"
        show "m_snext (node s' x) = m_snext (node s x) \<and> m_sprev (node s' x) = m_sprev (node s x)"
          using otherS [OF False x] by (simp add: old)
      qed
      moreover have "touching_thinglist s' R' = touching_thinglist s R'" using False by (simp add: tl')
      ultimately show ?thesis using False by simp
    qed
    have "distinct (?sth R')" using S(3) by simp
    then show "sthread_ok s' ?tth ?sth R'" using pl mem unfolding sthread_ok_def by blast
  qed
  have afl: "a \<notin> set fl" using threads_ok_live(4) [OF ok aE] .
  have flS: "\<And>x. x \<in> set fl \<Longrightarrow> x \<noteq> a \<and> Some x \<noteq> m_sprev (node s a)"
  proof -
    fix x assume x: "x \<in> set fl"
    have "x \<notin> set (sth R)" using threads_ok_touching(2) [OF ok, of x R] F(4) [OF x] by blast
    then show "x \<noteq> a \<and> Some x \<noteq> m_sprev (node s a)" using sp aR by auto
  qed
  have ff: "free_ok s' ?tth (a # fl)"
  proof -
    have "path m_snext (node s') (headsecnode s) fl = path m_snext (node s) (headsecnode s) fl"
      by (rule path_cong) (simp add: old flS)
    then have "path m_snext (node s') (headsecnode s') (a # fl)" using F(1) hs by simp
    moreover have "distinct (a # fl)" using F(2) afl by simp
    moreover have "\<forall>f\<in>set (a # fl). f < brk s' \<and> (\<forall>E'. f \<notin> set (?tth E'))"
    proof (intro ballI conjI allI)
      fix f assume f: "f \<in> set (a # fl)"
      show "f < brk s'" using f F(5) [OF aE] F(3) [of f] by (auto simp: hs(3))
      fix E'
      show "f \<notin> set (?tth E')"
      proof
        assume m: "f \<in> set (?tth E')"
        have m': "f \<in> set (tth E')" "f \<noteq> a" using inT [OF m] by simp_all
        then have "f \<in> set fl" using f by simp
        then show False using F(4) m'(1) by blast
      qed
    qed
    moreover have "\<forall>E'. \<forall>x\<in>set (?tth E'). x < brk s'"
    proof (intro allI ballI)
      fix E' x assume "x \<in> set (?tth E')"
      then have "x \<in> set (tth E')" using inT by blast
      then show "x < brk s'" using F(5) by (simp only: hs(3))
    qed
    ultimately show ?thesis unfolding free_ok_def by (intro conjI)
  qed
  have dd: "\<forall>E1 E2 x. x \<in> set (?tth E1) \<longrightarrow> x \<in> set (?tth E2) \<longrightarrow> E1 = E2"
  proof (intro allI impI)
    fix E1 E2 x assume "x \<in> set (?tth E1)" and "x \<in> set (?tth E2)"
    then have "x \<in> set (tth E1)" "x \<in> set (tth E2)" using inT by blast+
    then show "E1 = E2" by (rule threads_ok_disjoint(1) [OF ok])
  qed
  show ?thesis unfolding threads_ok_def using tt ss ff dd by blast
qed

lemma threads_ok_confirm:
  assumes ok: "threads_ok s heads tth sth fl" and aE: "a \<in> set (tth E)"
  shows "threads_ok (poke a (\<lambda>n. n\<lparr>m_thing := Some E\<rparr>) s) heads tth sth fl"
proof -
  let ?s = "poke a (\<lambda>n. n\<lparr>m_thing := Some E\<rparr>) s"
  have n: "\<And>x. m_tnext (node ?s x) = m_tnext (node s x)" "\<And>x. m_tprev (node ?s x) = m_tprev (node s x)"
    "\<And>x. m_snext (node ?s x) = m_snext (node s x)" "\<And>x. m_sprev (node ?s x) = m_sprev (node s x)"
    "\<And>x. m_sector (node ?s x) = m_sector (node s x)"
    "\<And>x. m_thing (node ?s x) = (if x = a then Some E else m_thing (node s x))"
    by (simp_all add: poke_def)
  have f: "touching_thinglist ?s = touching_thinglist s" "headsecnode ?s = headsecnode s" "brk ?s = brk s"
    by (simp_all add: poke_def)
  have P: "\<And>p as. path m_tnext (node ?s) p as = path m_tnext (node s) p as"
    "\<And>p as. path m_snext (node ?s) p as = path m_snext (node s) p as"
    by (rule path_cong, simp add: n)+
  have L: "\<And>q as. linked m_tprev (node ?s) q as = linked m_tprev (node s) q as"
    "\<And>q as. linked m_sprev (node ?s) q as = linked m_sprev (node s) q as"
    by (rule linked_cong, simp add: n)+
  have tt: "\<And>E'. tthread_ok ?s heads tth sth E'"
  proof -
    fix E'
    have t: "tthread_ok s heads tth sth E'" using ok by (simp add: threads_ok_def)
    have "\<And>x. x \<in> set (tth E') \<Longrightarrow> x = a \<Longrightarrow> E' = E"
      using threads_ok_disjoint(1) [OF ok _ aE] by simp
    then show "tthread_ok ?s heads tth sth E'"
      using t unfolding tthread_ok_def P L n by auto
  qed
  have ss: "\<And>R'. sthread_ok ?s tth sth R'"
    using ok unfolding threads_ok_def sthread_ok_def P L n f by blast
  have ff: "free_ok ?s tth fl" using ok unfolding threads_ok_def free_ok_def P f by blast
  have dd: "\<forall>E1 E2 x. x \<in> set (tth E1) \<longrightarrow> x \<in> set (tth E2) \<longrightarrow> E1 = E2"
    using ok unfolding threads_ok_def by blast
  show ?thesis unfolding threads_ok_def using tt ss ff dd by blast
qed

lemma membership_ok_add:
  assumes ok: "threads_ok s heads tth sth fl"
    and ad: "P_AddSecnode R (Some E) (heads E) s = Some (p, s')"
  shows "membership_ok s' (heads(E := p))"
proof -
  have pth: "path m_tnext (node s) (heads E) (tth E)"
    using ok by (simp add: threads_ok_def tthread_ok_def)
  have fs: "find_secnode (node s) R (heads E) = Some (find (\<lambda>a. m_sector (node s a) = R) (tth E))"
    using pth by (rule find_secnode_path)
  show ?thesis
  proof (cases "find (\<lambda>a. m_sector (node s a) = R) (tth E)")
    case None
    obtain a where a: "p = Some a" "taken a s s'" "added R (Some E) (heads E) a s s'"
      using P_AddSecnode_new [OF _ ad] fs None by auto
    show ?thesis unfolding membership_ok_def a(1)
      using threads_ok_added [OF ok a(2,3)] by blast
  next
    case (Some a0)
    have a0: "a0 \<in> set (tth E)" using find_SomeD [OF Some] by simp
    have "P_AddSecnode R (Some E) (heads E) s
        = Some (heads E, poke a0 (\<lambda>n. n\<lparr>m_thing := Some E\<rparr>) s)"
      using fs Some by (simp add: P_AddSecnode_found)
    then have "p = heads E" "s' = poke a0 (\<lambda>n. n\<lparr>m_thing := Some E\<rparr>) s" using ad by simp_all
    then show ?thesis using threads_ok_confirm [OF ok a0] unfolding membership_ok_def by auto
  qed
qed

lemma membership_ok_del:
  assumes ok: "threads_ok s heads tth sth fl"
    and r: "reachable m_tnext (node s) (heads E) a" and d: "P_DelSecnode a s = (tn, s')"
  shows "membership_ok s' (heads(E := if heads E = Some a then tn else heads E))"
proof -
  have pth: "path m_tnext (node s) (heads E) (tth E)"
    using ok by (simp add: threads_ok_def tthread_ok_def)
  have aE: "a \<in> set (tth E)" using r reachable_path [OF pth] by simp
  have tn: "tn = m_tnext (node s a)" using P_DelSecnode_fst [of a s] d by simp
  have "removed a s s'" using P_DelSecnode_removed [of a s] d by simp
  then show ?thesis unfolding membership_ok_def tn
    using threads_ok_removed [OF ok aE _ refl] by blast
qed

text \<open>
  C2.  In a memory whose threads are in order, a node that names an object and a sector is
  met from the head of the object's thread exactly when it is met from
  \<open>touching_thinglist\<close> of the sector.  The search of \<open>P_AddSecnode\<close> along the thread of an
  object comes to an end.  When \<open>P_AddSecnode\<close> returns, the memory is in order again and the
  equivalence holds, the thread of the object being read from the pointer that the function
  returns; and so it is after \<open>P_DelSecnode\<close> has deleted a node of the thread of an object,
  the thread being read from the old head, or from the returned next node when the head
  itself was deleted.
\<close>

theorem secnode_threads_consistent:
  assumes "membership_ok s heads"
  shows "consistent s heads
     \<and> (\<exists>r. find_secnode (node s) R (heads E) = Some r)
     \<and> (P_AddSecnode R (Some E) (heads E) s = Some (p, s') \<longrightarrow>
          membership_ok s' (heads(E := p)) \<and> consistent s' (heads(E := p)))
     \<and> (reachable m_tnext (node s) (heads E) a \<longrightarrow> P_DelSecnode a s = (tn, s'') \<longrightarrow>
          membership_ok s'' (heads(E := if heads E = Some a then tn else heads E))
          \<and> consistent s'' (heads(E := if heads E = Some a then tn else heads E)))"
proof -
  obtain tth sth fl where ok: "threads_ok s heads tth sth fl"
    using assms by (auto simp: membership_ok_def)
  have c: "\<And>s heads. membership_ok s heads \<Longrightarrow> consistent s heads"
    unfolding membership_ok_def using threads_ok_consistent by blast
  have "path m_tnext (node s) (heads E) (tth E)"
    using ok by (simp add: threads_ok_def tthread_ok_def)
  then have f: "\<exists>r. find_secnode (node s) R (heads E) = Some r"
    using find_secnode_path by blast
  show ?thesis
    using c [OF assms] f c [OF membership_ok_add [OF ok]] c [OF membership_ok_del [OF ok]]
      membership_ok_add [OF ok] membership_ok_del [OF ok]
    by blast
qed

text \<open>
  The theorem at work: into the memory without nodes a node for object 7 and sector 3 is
  put, and deleted again.
\<close>

theorem secnode_threads_consistent_witness:
  "membership_ok no_nodes (\<lambda>_. None)
   \<and> fst (the (P_AddSecnode 3 (Some 7) None no_nodes)) = Some 0
   \<and> consistent (snd (the (P_AddSecnode 3 (Some 7) None no_nodes))) ((\<lambda>_. None)(7 := Some 0))
   \<and> reachable m_tnext (node (snd (the (P_AddSecnode 3 (Some 7) None no_nodes)))) (Some 0) 0
   \<and> consistent (snd (P_DelSecnode 0 (snd (the (P_AddSecnode 3 (Some 7) None no_nodes)))))
        ((\<lambda>_. None)(7 := fst (P_DelSecnode 0 (snd (the (P_AddSecnode 3 (Some 7) None no_nodes))))))"
proof -
  define s1 where "s1 = snd (the (P_AddSecnode 3 (Some 7) None no_nodes))"
  define heads1 :: "mobj_ref \<Rightarrow> nat option" where "heads1 = (\<lambda>_. None)(7 := Some 0)"
  have "threads_ok no_nodes (\<lambda>_. None) (\<lambda>_. []) (\<lambda>_. []) []"
    by (simp add: threads_ok_def tthread_ok_def sthread_ok_def free_ok_def no_nodes_def)
  then have m0: "membership_ok no_nodes (\<lambda>_. None)" unfolding membership_ok_def by blast
  have "\<exists>r. P_AddSecnode 3 (Some 7) None no_nodes = Some (Some 0, r)"
    by (simp add: P_AddSecnode_def find_secnode_None P_GetSecnode_def Z_Malloc_def no_nodes_def Let_def)
  then have a: "P_AddSecnode 3 (Some 7) None no_nodes = Some (Some 0, s1)"
    by (auto simp: s1_def)
  have m1: "membership_ok s1 heads1" "consistent s1 heads1"
    using secnode_threads_consistent [OF m0, of 3 7 "Some 0" s1] a by (simp_all add: heads1_def)
  have r: "reachable m_tnext (node s1) (heads1 7) 0" by (simp add: heads1_def reachable.here)
  have "consistent (snd (P_DelSecnode 0 s1))
          (heads1(7 := if heads1 7 = Some 0 then fst (P_DelSecnode 0 s1) else heads1 7))"
    using secnode_threads_consistent [OF m1(1), of 3 7 None s1 0 "fst (P_DelSecnode 0 s1)" "snd (P_DelSecnode 0 s1)"] r
    by simp
  then have "consistent (snd (P_DelSecnode 0 s1)) ((\<lambda>_. None)(7 := fst (P_DelSecnode 0 s1)))"
    by (simp add: heads1_def)
  then show ?thesis using m0 a m1(2) r by (simp add: s1_def [symmetric] heads1_def)
qed

end
